theory Spec2Isabelle
  imports Complex_Main "HOL-Library.Word" "HOL-Library.List_Lexorder"
begin

section \<open>Strings and arrays of the source language\<close>

text \<open>
  A JavaScript string is a sequence of UTF-16 code units; \<open>length\<close>, \<open>charAt\<close>, indexing,
  \<open>substring\<close> and \<open>===\<close> all work on code units. The numbers of the engine (similarity
  ratios) are modelled as exact rationals; every claim below compares them to constants
  the code itself takes a maximum with or tests against.
\<close>

type_synonym jsstr = "16 word list"

definition js :: "string \<Rightarrow> jsstr" where
  \<comment> \<open>a Latin-1 literal as a JavaScript string\<close>
  "js s = map of_char s"

definition arr_set :: "'a list \<Rightarrow> nat \<Rightarrow> 'a \<Rightarrow> 'a list" where
  \<comment> \<open>\<open>xs[j] = v\<close>: overwrite inside the array, extend it by one at \<open>j = xs.length\<close>
     (the code never writes further out)\<close>
  "arr_set xs j v = (if j < length xs then xs[j := v] else xs @ [v])"

definition mat_set :: "'a list list \<Rightarrow> nat \<Rightarrow> nat \<Rightarrow> 'a \<Rightarrow> 'a list list" where
  \<comment> \<open>\<open>m[i][j] = v\<close> on an existing row \<open>i\<close>\<close>
  "mat_set m i j v = m[i := arr_set (m ! i) j v]"

section \<open>Similarity scorer: edit distance\<close>

definition lev_cell :: "'a list \<Rightarrow> 'a list \<Rightarrow> nat \<Rightarrow> nat \<Rightarrow> nat list list \<Rightarrow> nat list list" where
  \<comment> \<open>body of the inner loop of \<open>levenshteinDistance\<close>\<close>
  "lev_cell a b i j matrix =
     (if b ! (i - 1) = a ! (j - 1)
      then mat_set matrix i j (matrix ! (i - 1) ! (j - 1))
      else mat_set matrix i j
             (min (matrix ! (i - 1) ! (j - 1) + 1)
                (min (matrix ! i ! (j - 1) + 1) (matrix ! (i - 1) ! j + 1))))"

definition levenshteinDistance :: "'a list \<Rightarrow> 'a list \<Rightarrow> nat" where
  "levenshteinDistance a b =
     (if length a = 0 then length b
      else if length b = 0 then length a
      else
        let matrix0 = fold (\<lambda>i m. arr_set m i [i]) [0..<Suc (length b)] [];
            matrix1 = fold (\<lambda>j m. mat_set m 0 j j) [0..<Suc (length a)] matrix0;
            matrix2 = fold (\<lambda>i m. fold (\<lambda>j m. lev_cell a b i j m) [1..<Suc (length a)] m)
                        [1..<Suc (length b)] matrix1
        in matrix2 ! length b ! length a)"

definition similarityRatio :: "'a list \<Rightarrow> 'a list \<Rightarrow> rat" where
  \<comment> \<open>on strings, \<open>!a\<close> holds exactly for the empty string\<close>
  "similarityRatio a b =
     (if a = [] \<and> b = [] then 1
      else if a = [] \<or> b = [] then 0
      else
        let maxLen = max (length a) (length b) in
        if maxLen = 0 then 1
        else
          let distance = levenshteinDistance a b in
          1 - (of_nat distance / of_nat maxLen))"

section \<open>Sequence aligner\<close>

datatype kind = Unchanged | Added | Removed | Modified

record DiffEntry =
  etype :: kind
  leftLine :: "nat option"
  rightLine :: "nat option"
  leftContent :: "jsstr option"
  rightContent :: "jsstr option"
  similarity :: "rat option"

definition lcs_cell :: "'a list \<Rightarrow> 'a list \<Rightarrow> nat \<Rightarrow> nat \<Rightarrow> nat list list \<Rightarrow> nat list list" where
  \<comment> \<open>body of the inner loop of \<open>computeLCS\<close>\<close>
  "lcs_cell a b i j dp =
     (if a ! (i - 1) = b ! (j - 1)
      then mat_set dp i j (dp ! (i - 1) ! (j - 1) + 1)
      else mat_set dp i j (max (dp ! (i - 1) ! j) (dp ! i ! (j - 1))))"

definition computeLCS :: "'a list \<Rightarrow> 'a list \<Rightarrow> nat list list" where
  "computeLCS a b =
     (let m = length a;
          n = length b;
          dp = replicate (m + 1) (replicate (n + 1) 0)
      in fold (\<lambda>i dp. fold (\<lambda>j dp. lcs_cell a b i j dp) [1..<Suc n] dp) [1..<Suc m] dp)"

function backtrack_loop ::
  "nat list list \<Rightarrow> jsstr list \<Rightarrow> jsstr list \<Rightarrow> nat \<Rightarrow> nat \<Rightarrow> DiffEntry list \<Rightarrow> DiffEntry list"
where
  "backtrack_loop dp a b i j diff =
     (if i > 0 \<or> j > 0 then
        if i > 0 \<and> j > 0 \<and> a ! (i - 1) = b ! (j - 1) then
          backtrack_loop dp a b (i - 1) (j - 1)
            (\<lparr>etype = Unchanged, leftLine = Some i, rightLine = Some j,
              leftContent = Some (a ! (i - 1)), rightContent = Some (b ! (j - 1)),
              similarity = None\<rparr> # diff)
        else if j > 0 \<and> (i = 0 \<or> dp ! i ! (j - 1) \<ge> dp ! (i - 1) ! j) then
          backtrack_loop dp a b i (j - 1)
            (\<lparr>etype = Added, leftLine = None, rightLine = Some j,
              leftContent = None, rightContent = Some (b ! (j - 1)),
              similarity = None\<rparr> # diff)
        else
          backtrack_loop dp a b (i - 1) j
            (\<lparr>etype = Removed, leftLine = Some i, rightLine = None,
              leftContent = Some (a ! (i - 1)), rightContent = None,
              similarity = None\<rparr> # diff)
      else diff)"
  by pat_completeness auto
termination
  by (relation "measure (\<lambda>(dp, a, b, i, j, diff). i + j)") auto

declare backtrack_loop.simps [simp del]

definition backtrackDiff :: "nat list list \<Rightarrow> jsstr list \<Rightarrow> jsstr list \<Rightarrow> DiffEntry list" where
  "backtrackDiff dp a b = backtrack_loop dp a b (length a) (length b) []"

section \<open>Similarity scorer: line heuristics\<close>

definition is_space :: "16 word \<Rightarrow> bool" where
  \<comment> \<open>the class \<open>\s\<close> of a regular expression, which is also what \<open>trim\<close> strips:
     white space and line terminators\<close>
  "is_space c \<longleftrightarrow>
     c = 0x09 \<or> c = 0x0A \<or> c = 0x0B \<or> c = 0x0C \<or> c = 0x0D \<or> c = 0x20 \<or> c = 0xA0 \<or>
     c = 0x1680 \<or> (0x2000 \<le> c \<and> c \<le> 0x200A) \<or> c = 0x2028 \<or> c = 0x2029 \<or>
     c = 0x202F \<or> c = 0x205F \<or> c = 0x3000 \<or> c = 0xFEFF"

definition trim :: "jsstr \<Rightarrow> jsstr" where
  "trim s = rev (dropWhile is_space (rev (dropWhile is_space s)))"

function collapse_spaces :: "jsstr \<Rightarrow> jsstr" where
  \<comment> \<open>\<open>s.replace(/\s+/g, ' ')\<close>: every maximal run of white space becomes one space\<close>
  "collapse_spaces [] = []"
| "collapse_spaces (c # cs) =
     (if is_space c then 0x20 # collapse_spaces (dropWhile is_space cs)
      else c # collapse_spaces cs)"
  by pat_completeness auto
termination
  by (relation "measure length") (auto simp: length_dropWhile_le less_Suc_eq_le)

definition is_prop_char :: "16 word \<Rightarrow> bool" where
  \<comment> \<open>the class \<open>[a-z-]\<close> under the flag \<open>i\<close>: ASCII letters of both cases and the hyphen\<close>
  "is_prop_char c \<longleftrightarrow> (0x61 \<le> c \<and> c \<le> 0x7A) \<or> (0x41 \<le> c \<and> c \<le> 0x5A) \<or> c = 0x2D"

definition toLowerCase :: "jsstr \<Rightarrow> jsstr" where
  \<comment> \<open>only applied to a captured property name, whose letters are ASCII\<close>
  "toLowerCase s = map (\<lambda>c. if 0x41 \<le> c \<and> c \<le> 0x5A then c + 0x20 else c) s"

definition match_property :: "jsstr \<Rightarrow> jsstr option" where
  \<comment> \<open>\<open>s.match(/^\s*([a-z-]+)\s*:/i)?.[1]?.toLowerCase()\<close>; the three classes and the
     colon are pairwise disjoint, so the greedy match is the only one\<close>
  "match_property s =
     (let r1 = dropWhile is_space s;
          name = takeWhile is_prop_char r1;
          r2 = dropWhile is_space (dropWhile is_prop_char r1)
      in if name \<noteq> [] \<and> r2 \<noteq> [] \<and> hd r2 = 0x3A then Some (toLowerCase name) else None)"

definition match_selector :: "jsstr \<Rightarrow> jsstr option" where
  \<comment> \<open>\<open>s.match(/^([^{]+)\s*\{/)?.[1]?.trim()\<close>: the group takes everything before the
     first opening brace, which must exist and not be the first character\<close>
  "match_selector s =
     (let sel = takeWhile (\<lambda>c. c \<noteq> 0x7B) s;
          rest = dropWhile (\<lambda>c. c \<noteq> 0x7B) s
      in if sel \<noteq> [] \<and> rest \<noteq> [] then Some (trim sel) else None)"

definition truthy :: "jsstr option \<Rightarrow> bool" where
  \<comment> \<open>a string or null/undefined used as a condition\<close>
  "truthy s = (case s of None \<Rightarrow> False | Some t \<Rightarrow> t \<noteq> [])"

definition substring :: "jsstr \<Rightarrow> nat \<Rightarrow> nat \<Rightarrow> jsstr" where
  \<comment> \<open>\<open>s.substring(start, end)\<close>: both indices are clamped to the length and swapped
     when in the wrong order\<close>
  "substring s start end' =
     (let a = min start (length s);
          b = min end' (length s)
      in take (max a b - min a b) (drop (min a b) s))"

definition areSimilar :: "jsstr option \<Rightarrow> jsstr option \<Rightarrow> rat \<Rightarrow> bool \<times> rat" where
  "areSimilar a b threshold =
     (if \<not> truthy a \<or> \<not> truthy b then (False, 0)
      else
        let normA = collapse_spaces (trim (the a));
            normB = collapse_spaces (trim (the b))
        in
        if normA = normB then (True, 1)
        else if normA = [] \<or> normB = [] then (False, 0)
        else
          let ratio = similarityRatio normA normB;
              propA = match_property normA;
              propB = match_property normB;
              ratio = (if truthy propA \<and> truthy propB \<and> propA = propB
                       then max ratio (6 / 10) else ratio);
              selectorA = match_selector normA;
              selectorB = match_selector normB;
              ratio = (if truthy selectorA \<and> truthy selectorB then
                         let selectorRatio = similarityRatio (the selectorA) (the selectorB)
                         in if selectorRatio > 7 / 10 then max ratio (65 / 100) else ratio
                       else ratio)
          in
          if normA = [0x7D] \<and> normB = [0x7D] then (True, 1)
          else
            let prefixLen = min 10 (min (length normA) (length normB));
                ratio = (if prefixLen > 3 \<and>
                            substring normA 0 prefixLen = substring normB 0 prefixLen
                         then max ratio (5 / 10) else ratio)
            in (ratio \<ge> threshold, ratio))"

section \<open>Modification detector\<close>

record BlockEntry = DiffEntry +
  originalIndex :: nat

record Match =
  removedIdx :: int
  addedIdx :: int
  removed :: BlockEntry
  added :: BlockEntry
  ratio :: rat

definition set_add :: "'a list \<Rightarrow> 'a \<Rightarrow> 'a list" where
  \<comment> \<open>\<open>Set.prototype.add\<close>; a Set is kept as the list of its members in insertion order,
     so \<open>size\<close> is \<open>length\<close> and \<open>has\<close> is membership\<close>
  "set_add s x = (if x \<in> set s then s else s @ [x])"

definition new_Set :: "'a list \<Rightarrow> 'a list" where
  \<comment> \<open>\<open>new Set(xs)\<close>\<close>
  "new_Set xs = fold (\<lambda>x s. set_add s x) xs []"

definition similarity_matrix ::
  "'a DiffEntry_scheme list \<Rightarrow> 'b DiffEntry_scheme list \<Rightarrow> rat list list" where
  "similarity_matrix removedBlock addedBlock =
     map (\<lambda>i. map (\<lambda>j.
            let (similar, r) = areSimilar (leftContent (removedBlock ! i))
                                 (rightContent (addedBlock ! j)) (4 / 10)
            in if similar then r else 0)
          [0..<length addedBlock])
       [0..<length removedBlock]"

definition scan_cell ::
  "rat list list \<Rightarrow> int list \<Rightarrow> nat \<Rightarrow> nat \<Rightarrow> int \<times> int \<times> rat \<Rightarrow> int \<times> int \<times> rat" where
  \<comment> \<open>body of the inner scanning loop; the state is \<open>(bestI, bestJ, bestRatio)\<close>\<close>
  "scan_cell similarities usedAdded i j best =
     (case best of (bestI, bestJ, bestRatio) \<Rightarrow>
        if int j \<in> set usedAdded then best
        else if similarities ! i ! j > bestRatio then (int i, int j, similarities ! i ! j)
        else best)"

definition scan_best ::
  "rat list list \<Rightarrow> nat \<Rightarrow> nat \<Rightarrow> int list \<Rightarrow> int list \<Rightarrow> int \<times> int \<times> rat" where
  \<comment> \<open>the two nested scanning loops of one round, from \<open>(-1, -1, 0)\<close>\<close>
  "scan_best similarities nr na usedRemoved usedAdded =
     fold (\<lambda>i best.
             if int i \<in> set usedRemoved then best
             else fold (\<lambda>j best. scan_cell similarities usedAdded i j best) [0..<na] best)
       [0..<nr] (- 1, - 1, 0)"

text \<open>
  The unused index pairs of one scanning round in the order the two loops visit them
  (row-major), and the update of the best pair at one of them.
\<close>

definition remaining_pairs :: "nat \<Rightarrow> nat \<Rightarrow> int list \<Rightarrow> int list \<Rightarrow> (nat \<times> nat) list" where
  "remaining_pairs nr na usedRemoved usedAdded =
     concat (map (\<lambda>i. if int i \<in> set usedRemoved then []
                        else map (Pair i) (filter (\<lambda>j. int j \<notin> set usedAdded) [0..<na]))
               [0..<nr])"

definition pick :: "rat list list \<Rightarrow> nat \<times> nat \<Rightarrow> int \<times> int \<times> rat \<Rightarrow> int \<times> int \<times> rat" where
  "pick S p best = (if S ! fst p ! snd p > snd (snd best) then (int (fst p), int (snd p), S ! fst p ! snd p) else best)"

lemma scan_row_eq:
  "fold (\<lambda>j best. scan_cell S uA i j best) cols best
   = fold (pick S) (map (Pair i) (filter (\<lambda>j. int j \<notin> set uA) cols)) best"
  by (induction cols arbitrary: best) (auto simp: scan_cell_def pick_def split: prod.splits)

lemma scan_best_eq:
  "scan_best S nr na uR uA = fold (pick S) (remaining_pairs nr na uR uA) (- 1, - 1, 0)"
proof -
  have "fold (\<lambda>i best. if int i \<in> set uR then best
             else fold (\<lambda>j best. scan_cell S uA i j best) [0..<na] best) rows best
     = fold (pick S) (concat (map (\<lambda>i. if int i \<in> set uR then []
                        else map (Pair i) (filter (\<lambda>j. int j \<notin> set uA) [0..<na])) rows)) best"
    for rows best
    by (induction rows arbitrary: best) (simp_all add: scan_row_eq)
  then show ?thesis by (simp add: scan_best_def remaining_pairs_def)
qed

lemma fold_pick_cases:
  "fold (pick S) ps best = best \<or>
   (\<exists>p \<in> set ps. fold (pick S) ps best = (int (fst p), int (snd p), S ! fst p ! snd p)
       \<and> S ! fst p ! snd p > snd (snd best))"
proof (induction ps arbitrary: best)
  case Nil
  then show ?case by simp
next
  case (Cons p ps)
  show ?case using Cons.IH[of "pick S p best"]
    by (auto simp: pick_def split: if_splits)
qed

lemma set_remaining_pairs:
  "set (remaining_pairs nr na uR uA) = {(i, j). i < nr \<and> j < na \<and> int i \<notin> set uR \<and> int j \<notin> set uA}"
  by (auto simp: remaining_pairs_def split: if_splits)

lemma scan_best_fresh:
  assumes "scan_best S nr na uR uA = (bi, bj, br)" "br > 0"
  shows "\<exists>i j. bi = int i \<and> bj = int j \<and> i < nr \<and> j < na \<and> bi \<notin> set uR \<and> bj \<notin> set uA \<and> br = S ! i ! j"
  using fold_pick_cases[of S "remaining_pairs nr na uR uA" "(- 1, - 1, 0)"] assms
  unfolding scan_best_eq[symmetric] set_remaining_pairs by auto

function greedy_loop ::
  "BlockEntry list \<Rightarrow> BlockEntry list \<Rightarrow> rat list list \<Rightarrow> Match list \<Rightarrow> int list \<Rightarrow> int list
     \<Rightarrow> Match list" where
  "greedy_loop removedBlock addedBlock similarities matches usedRemoved usedAdded =
     (if length usedRemoved < length removedBlock \<and> length usedAdded < length addedBlock then
        case scan_best similarities (length removedBlock) (length addedBlock)
               usedRemoved usedAdded of
          (bestI, bestJ, bestRatio) \<Rightarrow>
            if bestRatio > 0 then
              greedy_loop removedBlock addedBlock similarities
                (matches @ [\<lparr>removedIdx = bestI, addedIdx = bestJ,
                              removed = removedBlock ! nat bestI, added = addedBlock ! nat bestJ,
                              ratio = bestRatio\<rparr>])
                (set_add usedRemoved bestI) (set_add usedAdded bestJ)
            else matches
      else matches)"
  by pat_completeness auto
termination
proof (relation "measure (\<lambda>(rb, ab, S, ms, uR, uA). length rb - length uR)", goal_cases)
  case 1
  show ?case by simp
next
  case (2 rb ab S ms uR uA bi y bj br)
  then have "scan_best S (length rb) (length ab) uR uA = (bi, bj, br)" by simp
  from scan_best_fresh[OF this] 2 have "bi \<notin> set uR" by auto
  then have "length (set_add uR bi) = Suc (length uR)"
    by (simp add: set_add_def)
  with 2 show ?case by (simp, linarith)
qed

declare greedy_loop.simps [simp del]

definition findBestMatches :: "BlockEntry list \<Rightarrow> BlockEntry list \<Rightarrow> Match list" where
  "findBestMatches removedBlock addedBlock =
     (if length removedBlock = 0 \<or> length addedBlock = 0 then []
      else greedy_loop removedBlock addedBlock (similarity_matrix removedBlock addedBlock) [] [] [])"

definition to_block :: "DiffEntry \<Rightarrow> nat \<Rightarrow> BlockEntry" where
  \<comment> \<open>\<open>{ ...diff[i], originalIndex: i }\<close>\<close>
  "to_block e i = \<lparr>etype = etype e, leftLine = leftLine e, rightLine = rightLine e,
     leftContent = leftContent e, rightContent = rightContent e, similarity = similarity e,
     originalIndex = i\<rparr>"

function collect_block :: "kind \<Rightarrow> DiffEntry list \<Rightarrow> nat \<Rightarrow> BlockEntry list \<Rightarrow> BlockEntry list \<times> nat" where
  \<comment> \<open>\<open>while (i < diff.length && diff[i].type === k) { block.push(...); i++ }\<close>\<close>
  "collect_block k diff i block =
     (if i < length diff \<and> etype (diff ! i) = k
      then collect_block k diff (i + 1) (block @ [to_block (diff ! i) i])
      else (block, i))"
  by pat_completeness auto
termination
  by (relation "measure (\<lambda>(k, diff, i, block). length diff - i)") auto

declare collect_block.simps [simp del]

definition removed_entry :: "'a DiffEntry_scheme \<Rightarrow> DiffEntry" where
  "removed_entry item = \<lparr>etype = Removed, leftLine = leftLine item, rightLine = None,
     leftContent = leftContent item, rightContent = None, similarity = None\<rparr>"

definition added_entry :: "'a DiffEntry_scheme \<Rightarrow> DiffEntry" where
  "added_entry item = \<lparr>etype = Added, leftLine = None, rightLine = rightLine item,
     leftContent = None, rightContent = rightContent item, similarity = None\<rparr>"

definition modified_entry :: "Match \<Rightarrow> DiffEntry" where
  "modified_entry match = \<lparr>etype = Modified, leftLine = leftLine (removed match),
     rightLine = rightLine (added match), leftContent = leftContent (removed match),
     rightContent = rightContent (added match), similarity = Some (ratio match)\<rparr>"

definition match_blocks :: "BlockEntry list \<Rightarrow> BlockEntry list \<Rightarrow> DiffEntry list" where
  \<comment> \<open>what the branch for a removed block followed by an added block pushes\<close>
  "match_blocks removedBlock addedBlock =
     (let matches = findBestMatches removedBlock addedBlock;
          matchedRemoved = new_Set (map removedIdx matches);
          matchedAdded = new_Set (map addedIdx matches);
          sortedMatches = sort_key removedIdx matches
      in map (\<lambda>r. removed_entry (removedBlock ! r))
           (filter (\<lambda>r. int r \<notin> set matchedRemoved) [0..<length removedBlock])
         @ map modified_entry sortedMatches
         @ map (\<lambda>a. added_entry (addedBlock ! a))
           (filter (\<lambda>a. int a \<notin> set matchedAdded) [0..<length addedBlock]))"

lemma collect_block_eq:
  "collect_block k diff i block =
     (block @ map (\<lambda>t. to_block (diff ! t) t)
                [i..<i + length (takeWhile (\<lambda>e. etype e = k) (drop i diff))],
      i + length (takeWhile (\<lambda>e. etype e = k) (drop i diff)))"
proof (induction k diff i block rule: collect_block.induct)
  case (1 k diff i block)
  show ?case
  proof (cases "i < length diff \<and> etype (diff ! i) = k")
    case True
    then have d: "drop i diff = diff ! i # drop (Suc i) diff"
      by (simp add: Cons_nth_drop_Suc)
    show ?thesis
      using True "1.IH"
      by (subst collect_block.simps) (simp add: d upt_conv_Cons del: upt_Suc)
  next
    case False
    then have "takeWhile (\<lambda>e. etype e = k) (drop i diff) = []"
      by (cases "i < length diff") (auto simp: takeWhile_eq_Nil_iff hd_drop_conv_nth)
    then show ?thesis using False by (subst collect_block.simps) auto
  qed
qed

lemma collect_block_bounds:
  assumes "collect_block k diff i [] = (block, i')"
  shows "i \<le> i'" and "block \<noteq> [] \<Longrightarrow> i < i'" and "i \<le> length diff \<Longrightarrow> i' \<le> length diff"
    and "block = [] \<Longrightarrow> i' = i"
proof -
  let ?n = "length (takeWhile (\<lambda>e. etype e = k) (drop i diff))"
  have "?n \<le> length (drop i diff)" by (rule length_takeWhile_le)
  then have n: "i \<le> length diff \<Longrightarrow> i + ?n \<le> length diff" by simp
  from assms have b: "block = map (\<lambda>t. to_block (diff ! t) t) [i..<i + ?n]" and i': "i' = i + ?n"
    by (auto simp add: collect_block_eq)
  show "i \<le> i'" using i' by simp
  show "block \<noteq> [] \<Longrightarrow> i < i'" using b i' by auto
  show "i \<le> length diff \<Longrightarrow> i' \<le> length diff" using n i' by simp
  show "block = [] \<Longrightarrow> i' = i" using b i' by auto
qed

function detect_loop :: "DiffEntry list \<Rightarrow> nat \<Rightarrow> DiffEntry list \<Rightarrow> DiffEntry list" where
  "detect_loop diff i result =
     (if i < length diff then
        case collect_block Removed diff i [] of (removedBlock, i1) \<Rightarrow>
        case collect_block Added diff i1 [] of (addedBlock, i2) \<Rightarrow>
          if length removedBlock > 0 \<and> length addedBlock > 0 then
            detect_loop diff i2 (result @ match_blocks removedBlock addedBlock)
          else if length removedBlock > 0 then
            detect_loop diff i2 (result @ map removed_entry removedBlock)
          else if length addedBlock > 0 then
            detect_loop diff i2 (result @ map added_entry addedBlock)
          else
            detect_loop diff (i2 + 1) (result @ [diff ! i])
      else result)"
  by pat_completeness auto
termination
proof (relation "measure (\<lambda>(diff, i, result). length diff - i)", goal_cases)
  case 1
  show ?case by simp
next
  case (2 diff i result rb i1 ab i2)
  from collect_block_bounds(2)[OF 2(2)[symmetric]] collect_block_bounds(1)[OF 2(3)[symmetric]] 2
  show ?case by auto
next
  case (3 diff i result rb i1 ab i2)
  from collect_block_bounds(2)[OF 3(2)[symmetric]] collect_block_bounds(1)[OF 3(3)[symmetric]] 3
  show ?case by auto
next
  case (4 diff i result rb i1 ab i2)
  from collect_block_bounds(1)[OF 4(2)[symmetric]] collect_block_bounds(2)[OF 4(3)[symmetric]] 4
  show ?case by auto
next
  case (5 diff i result rb i1 ab i2)
  from collect_block_bounds(1)[OF 5(2)[symmetric]] collect_block_bounds(1)[OF 5(3)[symmetric]] 5
  show ?case by auto
qed

declare detect_loop.simps [simp del]

definition detectModifications :: "DiffEntry list \<Rightarrow> DiffEntry list" where
  "detectModifications diff = detect_loop diff 0 []"

definition computeDiff_lines :: "jsstr list \<Rightarrow> jsstr list \<Rightarrow> DiffEntry list" where
  \<comment> \<open>the \<open>diff\<close> of \<open>computeDiff\<close>, from the two inputs already split into lines\<close>
  "computeDiff_lines originalLines modifiedLines =
     detectModifications (backtrackDiff (computeLCS originalLines modifiedLines)
        originalLines modifiedLines)"

section \<open>Properties of diff entries\<close>

definition score :: "jsstr option \<Rightarrow> jsstr option \<Rightarrow> rat" where
  "score a b = (case areSimilar a b (4 / 10) of (similar, r) \<Rightarrow> if similar then r else 0)"

definition good_match :: "BlockEntry list \<Rightarrow> BlockEntry list \<Rightarrow> rat list list \<Rightarrow> Match \<Rightarrow> bool" where
  "good_match rb ab S m \<longleftrightarrow>
     (\<exists>i j. i < length rb \<and> j < length ab \<and> removedIdx m = int i \<and> addedIdx m = int j \<and>
        removed m = rb ! i \<and> added m = ab ! j \<and> ratio m = S ! i ! j \<and> 0 < ratio m)"

definition well_shaped :: "DiffEntry \<Rightarrow> bool" where
  "well_shaped e =
     (case etype e of
        Unchanged \<Rightarrow> leftLine e \<noteq> None \<and> rightLine e \<noteq> None
      | Modified \<Rightarrow> leftLine e \<noteq> None \<and> rightLine e \<noteq> None
      | Added \<Rightarrow> rightLine e \<noteq> None \<and> leftLine e = None
      | Removed \<Rightarrow> leftLine e \<noteq> None \<and> rightLine e = None)"

section \<open>The greedy matching in the words of the specification\<close>

text \<open>
  One round takes the highest similarity among the remaining pairs, the first such pair in
  row-major scan order, provided it exceeds 0. A matching is greedy when each of its pairs
  is the choice of its round and no choice is left after the last one: then no remaining
  similarity exceeds 0, or one side is exhausted and no pair remains.
\<close>

definition top_similarity :: "rat list list \<Rightarrow> (nat \<times> nat) list \<Rightarrow> rat \<Rightarrow> rat" where
  "top_similarity S ps a = fold max (map (\<lambda>(i, j). S ! i ! j) ps) a"

definition best_remaining :: "rat list list \<Rightarrow> (nat \<times> nat) list \<Rightarrow> (nat \<times> nat) option" where
  "best_remaining S ps =
     (let top = top_similarity S ps 0
      in if top > 0 then find (\<lambda>(i, j). S ! i ! j = top) ps else None)"

fun greedy_matching ::
  "rat list list \<Rightarrow> nat \<Rightarrow> nat \<Rightarrow> int list \<Rightarrow> int list \<Rightarrow> (nat \<times> nat \<times> rat) list \<Rightarrow> bool" where
  "greedy_matching S nr na usedRemoved usedAdded [] =
     (best_remaining S (remaining_pairs nr na usedRemoved usedAdded) = None)"
| "greedy_matching S nr na usedRemoved usedAdded ((i, j, r) # ms) =
     (best_remaining S (remaining_pairs nr na usedRemoved usedAdded) = Some (i, j) \<and>
      r = S ! i ! j \<and>
      greedy_matching S nr na (usedRemoved @ [int i]) (usedAdded @ [int j]) ms)"

definition mk_match :: "BlockEntry list \<Rightarrow> BlockEntry list \<Rightarrow> nat \<times> nat \<times> rat \<Rightarrow> Match" where
  "mk_match rb ab m =
     (case m of (i, j, r) \<Rightarrow>
        \<lparr>removedIdx = int i, addedIdx = int j, removed = rb ! i, added = ab ! j, ratio = r\<rparr>)"

definition block_output ::
  "DiffEntry list \<Rightarrow> DiffEntry list \<Rightarrow> (nat \<times> nat \<times> rat) list \<Rightarrow> DiffEntry list" where
  "block_output R A ms =
     map (\<lambda>i. removed_entry (R ! i)) (filter (\<lambda>i. i \<notin> fst ` set ms) [0..<length R])
     @ map (\<lambda>(i, j, r).
          \<lparr>etype = Modified, leftLine = leftLine (R ! i), rightLine = rightLine (A ! j),
            leftContent = leftContent (R ! i), rightContent = rightContent (A ! j),
            similarity = Some r\<rparr>)
         (sort_key fst ms)
     @ map (\<lambda>j. added_entry (A ! j)) (filter (\<lambda>j. j \<notin> (fst \<circ> snd) ` set ms) [0..<length A])"

text \<open>
  The detector as a function on the list of entries still to be read, and the output for
  a removed block followed by an added block, both without the original indices.
\<close>

definition block_of :: "DiffEntry list \<Rightarrow> DiffEntry list \<Rightarrow> DiffEntry list" where
  "block_of R A = match_blocks (map (\<lambda>e. to_block e 0) R) (map (\<lambda>e. to_block e 0) A)"

function detect_list :: "DiffEntry list \<Rightarrow> DiffEntry list" where
  "detect_list xs =
     (if xs = [] then []
      else
        let R = takeWhile (\<lambda>e. etype e = Removed) xs;
            r1 = dropWhile (\<lambda>e. etype e = Removed) xs;
            A = takeWhile (\<lambda>e. etype e = Added) r1;
            r2 = dropWhile (\<lambda>e. etype e = Added) r1
        in if R \<noteq> [] \<and> A \<noteq> [] then block_of R A @ detect_list r2
           else if R \<noteq> [] then map removed_entry R @ detect_list r2
           else if A \<noteq> [] then map added_entry A @ detect_list r2
           else hd xs # detect_list (tl xs))"
  by pat_completeness auto
termination
proof (relation "measure length", goal_cases)
  case 1
  show ?case by simp
next
  case (2 xs R r1 A r2)
  have "length xs = length R + length r1" "length r1 = length A + length r2"
    using 2 takeWhile_dropWhile_id[of "\<lambda>e. etype e = Removed" xs]
      takeWhile_dropWhile_id[of "\<lambda>e. etype e = Added" r1]
    by (metis length_append)+
  then show ?case using 2 by (cases R) auto
next
  case (3 xs R r1 A r2)
  have "length xs = length R + length r1" "length r1 = length A + length r2"
    using 3 takeWhile_dropWhile_id[of "\<lambda>e. etype e = Removed" xs]
      takeWhile_dropWhile_id[of "\<lambda>e. etype e = Added" r1]
    by (metis length_append)+
  then show ?case using 3 by (cases R) auto
next
  case (4 xs R r1 A r2)
  have "length xs = length R + length r1" "length r1 = length A + length r2"
    using 4 takeWhile_dropWhile_id[of "\<lambda>e. etype e = Removed" xs]
      takeWhile_dropWhile_id[of "\<lambda>e. etype e = Added" r1]
    by (metis length_append)+
  then show ?case using 4 by (cases A) auto
next
  case (5 xs R r1 A r2)
  then show ?case by (cases xs) auto
qed

declare detect_list.simps [simp del]

section \<open>Inline differ\<close>

record InlineSegment =
  seg_text :: jsstr  \<comment> \<open>the field \<open>text\<close>\<close>
  changed :: bool

definition or_empty :: "jsstr option \<Rightarrow> jsstr" where
  \<comment> \<open>\<open>if (!s) s = ''\<close>\<close>
  "or_empty s = (if \<not> truthy s then [] else the s)"

function prefix_loop :: "jsstr \<Rightarrow> jsstr \<Rightarrow> nat \<Rightarrow> nat \<Rightarrow> nat" where
  "prefix_loop oldStr newStr minLen prefixLen =
     (if prefixLen < minLen \<and> oldStr ! prefixLen = newStr ! prefixLen
      then prefix_loop oldStr newStr minLen (prefixLen + 1)
      else prefixLen)"
  by pat_completeness auto
termination
  by (relation "measure (\<lambda>(oldStr, newStr, minLen, prefixLen). minLen - prefixLen)") auto

declare prefix_loop.simps [simp del]

function suffix_loop :: "jsstr \<Rightarrow> jsstr \<Rightarrow> nat \<Rightarrow> nat \<Rightarrow> nat \<Rightarrow> nat" where
  "suffix_loop oldStr newStr minLen prefixLen suffixLen =
     (if suffixLen < minLen - prefixLen \<and>
         oldStr ! (length oldStr - 1 - suffixLen) = newStr ! (length newStr - 1 - suffixLen)
      then suffix_loop oldStr newStr minLen prefixLen (suffixLen + 1)
      else suffixLen)"
  by pat_completeness auto
termination
  by (relation "measure (\<lambda>(oldStr, newStr, minLen, prefixLen, suffixLen).
        (minLen - prefixLen) - suffixLen)") auto

declare suffix_loop.simps [simp del]

definition push_if :: "jsstr \<Rightarrow> bool \<Rightarrow> InlineSegment list \<Rightarrow> InlineSegment list" where
  \<comment> \<open>\<open>if (s) result.push({ text: s, changed: c })\<close>\<close>
  "push_if s c result = (if s \<noteq> [] then result @ [\<lparr>seg_text = s, changed = c\<rparr>] else result)"

definition findInlineDiff ::
  "jsstr option \<Rightarrow> jsstr option \<Rightarrow> InlineSegment list \<times> InlineSegment list" where
  "findInlineDiff oldStr0 newStr0 =
     (let oldStr = or_empty oldStr0;
          newStr = or_empty newStr0;
          minLen = min (length oldStr) (length newStr);
          prefixLen = prefix_loop oldStr newStr minLen 0;
          suffixLen = suffix_loop oldStr newStr minLen prefixLen 0;
          oldMiddle = substring oldStr prefixLen (length oldStr - suffixLen);
          newMiddle = substring newStr prefixLen (length newStr - suffixLen);
          prefix = substring oldStr 0 prefixLen;
          suffix = substring oldStr (length oldStr - suffixLen) (length oldStr);
          oldResult = push_if suffix False (push_if oldMiddle True (push_if prefix False []));
          newResult = push_if suffix False (push_if newMiddle True (push_if prefix False []))
      in if length oldResult = 0 \<and> length newResult = 0
         then ([\<lparr>seg_text = oldStr, changed = False\<rparr>], [\<lparr>seg_text = newStr, changed = False\<rparr>])
         else (oldResult, newResult))"

definition tokenize_step ::
  "16 word \<Rightarrow> jsstr list \<times> jsstr \<times> bool \<Rightarrow> jsstr list \<times> jsstr \<times> bool" where
  \<comment> \<open>body of the loop of \<open>tokenize\<close>; the state is \<open>(tokens, current, isSpace)\<close>\<close>
  "tokenize_step char st =
     (case st of (tokens, current, isSpace) \<Rightarrow>
        let charIsSpace = is_space char in
        if current \<noteq> [] \<and> charIsSpace \<noteq> isSpace
        then (tokens @ [current], [char], charIsSpace)
        else (tokens, current @ [char], charIsSpace))"

definition tokenize :: "jsstr \<Rightarrow> jsstr list" where
  \<comment> \<open>the loop runs over code points; no code unit of a surrogate pair is white space,
     so running over code units yields the same tokens\<close>
  "tokenize str =
     (case fold tokenize_step str ([], [], False) of
        (tokens, current, isSpace) \<Rightarrow> if current \<noteq> [] then tokens @ [current] else tokens)"

function words_loop ::
  "nat list list \<Rightarrow> jsstr list \<Rightarrow> jsstr list \<Rightarrow> nat \<Rightarrow> nat \<Rightarrow>
     InlineSegment list \<Rightarrow> InlineSegment list \<Rightarrow> InlineSegment list \<times> InlineSegment list"
where
  "words_loop dp oldTokens newTokens i j oldResult newResult =
     (if i > 0 \<or> j > 0 then
        if i > 0 \<and> j > 0 \<and> oldTokens ! (i - 1) = newTokens ! (j - 1) then
          words_loop dp oldTokens newTokens (i - 1) (j - 1)
            (\<lparr>seg_text = oldTokens ! (i - 1), changed = False\<rparr> # oldResult)
            (\<lparr>seg_text = newTokens ! (j - 1), changed = False\<rparr> # newResult)
        else if j > 0 \<and> (i = 0 \<or> dp ! i ! (j - 1) \<ge> dp ! (i - 1) ! j) then
          words_loop dp oldTokens newTokens i (j - 1) oldResult
            (\<lparr>seg_text = newTokens ! (j - 1), changed = True\<rparr> # newResult)
        else
          words_loop dp oldTokens newTokens (i - 1) j
            (\<lparr>seg_text = oldTokens ! (i - 1), changed = True\<rparr> # oldResult) newResult
      else (oldResult, newResult))"
  by pat_completeness auto
termination
  by (relation "measure (\<lambda>(dp, a, b, i, j, r1, r2). i + j)") auto

declare words_loop.simps [simp del]

definition merge_step :: "InlineSegment \<Rightarrow> InlineSegment list \<Rightarrow> InlineSegment list" where
  \<comment> \<open>body of the loop of \<open>merge\<close>\<close>
  "merge_step item merged =
     (if length merged > 0 \<and> changed (last merged) = changed item
      then butlast merged @ [(last merged)\<lparr>seg_text := seg_text (last merged) @ seg_text item\<rparr>]
      else merged @ [item])"

definition merge_segments :: "InlineSegment list \<Rightarrow> InlineSegment list" where
  "merge_segments arr = fold merge_step arr []"

definition findInlineDiffWords ::
  "jsstr option \<Rightarrow> jsstr option \<Rightarrow> InlineSegment list \<times> InlineSegment list" where
  "findInlineDiffWords oldStr0 newStr0 =
     (let oldStr = or_empty oldStr0;
          newStr = or_empty newStr0;
          oldTokens = tokenize oldStr;
          newTokens = tokenize newStr;
          dp = computeLCS oldTokens newTokens
      in case words_loop dp oldTokens newTokens (length oldTokens) (length newTokens) [] [] of
           (oldResult, newResult) \<Rightarrow> (merge_segments oldResult, merge_segments newResult))"

section \<open>The diff of two documents\<close>

record DiffStats =
  stat_added :: nat
  stat_removed :: nat
  stat_modified :: nat
  stat_unchanged :: nat
  totalOriginal :: nat
  totalModified :: nat

record DiffResult =
  result_diff :: "DiffEntry list"  \<comment> \<open>the field \<open>diff\<close>\<close>
  stats :: DiffStats

fun split_lines_acc :: "jsstr \<Rightarrow> jsstr \<Rightarrow> jsstr list" where
  \<comment> \<open>\<open>s.split('\n')\<close>, with the line read so far\<close>
  "split_lines_acc cur [] = [cur]"
| "split_lines_acc cur (c # cs) =
     (if c = 0x0A then cur # split_lines_acc [] cs else split_lines_acc (cur @ [c]) cs)"

definition computeDiff :: "jsstr \<Rightarrow> jsstr \<Rightarrow> DiffResult" where
  "computeDiff original modified =
     (let originalLines = split_lines_acc [] original;
          modifiedLines = split_lines_acc [] modified;
          d = computeDiff_lines originalLines modifiedLines
      in \<lparr>result_diff = d,
          stats = \<lparr>stat_added = length (filter (\<lambda>e. etype e = Added) d),
                    stat_removed = length (filter (\<lambda>e. etype e = Removed) d),
                    stat_modified = length (filter (\<lambda>e. etype e = Modified) d),
                    stat_unchanged = length (filter (\<lambda>e. etype e = Unchanged) d),
                    totalOriginal = length originalLines,
                    totalModified = length modifiedLines\<rparr>\<rparr>)"

section \<open>Split view\<close>

datatype item_kind = I_empty | I_added | I_removed | I_modified | I_unchanged

record SplitItem =
  itype :: item_kind
  content :: "jsstr option"
  lineNumber :: "nat option"
  originalContent :: "jsstr option"  \<comment> \<open>absent unless the item is modified\<close>
  newContent :: "jsstr option"
  item_similarity :: "rat option"

record GutterItem =
  gutter_type :: kind
  symbol :: jsstr

definition left_item :: "DiffEntry \<Rightarrow> SplitItem" where
  \<comment> \<open>what \<open>generateSplitDiff\<close> pushes onto \<open>left\<close> for one entry\<close>
  "left_item item =
     (case etype item of
        Added \<Rightarrow>
          \<lparr>itype = I_empty, content = Some [], lineNumber = None,
            originalContent = None, newContent = None, item_similarity = None\<rparr>
      | Removed \<Rightarrow>
          \<lparr>itype = I_removed, content = leftContent item, lineNumber = leftLine item,
            originalContent = None, newContent = None, item_similarity = None\<rparr>
      | Modified \<Rightarrow>
          \<lparr>itype = I_modified, content = leftContent item, lineNumber = leftLine item,
            originalContent = leftContent item, newContent = rightContent item,
            item_similarity = similarity item\<rparr>
      | Unchanged \<Rightarrow>
          \<lparr>itype = I_unchanged, content = leftContent item, lineNumber = leftLine item,
            originalContent = None, newContent = None, item_similarity = None\<rparr>)"

definition right_item :: "DiffEntry \<Rightarrow> SplitItem" where
  \<comment> \<open>what it pushes onto \<open>right\<close>\<close>
  "right_item item =
     (case etype item of
        Added \<Rightarrow>
          \<lparr>itype = I_added, content = rightContent item, lineNumber = rightLine item,
            originalContent = None, newContent = None, item_similarity = None\<rparr>
      | Removed \<Rightarrow>
          \<lparr>itype = I_empty, content = Some [], lineNumber = None,
            originalContent = None, newContent = None, item_similarity = None\<rparr>
      | Modified \<Rightarrow>
          \<lparr>itype = I_modified, content = rightContent item, lineNumber = rightLine item,
            originalContent = leftContent item, newContent = rightContent item,
            item_similarity = similarity item\<rparr>
      | Unchanged \<Rightarrow>
          \<lparr>itype = I_unchanged, content = rightContent item, lineNumber = rightLine item,
            originalContent = None, newContent = None, item_similarity = None\<rparr>)"

definition gutter_item :: "DiffEntry \<Rightarrow> GutterItem" where
  \<comment> \<open>what it pushes onto \<open>gutter\<close>\<close>
  "gutter_item item =
     (case etype item of
        Added \<Rightarrow> \<lparr>gutter_type = Added, symbol = js ''+''\<rparr>
      | Removed \<Rightarrow> \<lparr>gutter_type = Removed, symbol = js ''-''\<rparr>
      | Modified \<Rightarrow> \<lparr>gutter_type = Modified, symbol = js ''~''\<rparr>
      | Unchanged \<Rightarrow> \<lparr>gutter_type = Unchanged, symbol = []\<rparr>)"

definition split_step ::
  "DiffEntry \<Rightarrow> SplitItem list \<times> SplitItem list \<times> GutterItem list
     \<Rightarrow> SplitItem list \<times> SplitItem list \<times> GutterItem list" where
  \<comment> \<open>body of the \<open>forEach\<close> of \<open>generateSplitDiff\<close>\<close>
  "split_step item st =
     (case st of (left, right, gutter) \<Rightarrow>
        (left @ [left_item item], right @ [right_item item], gutter @ [gutter_item item]))"

definition generateSplitDiff ::
  "DiffEntry list \<Rightarrow> SplitItem list \<times> SplitItem list \<times> GutterItem list" where
  "generateSplitDiff d = fold split_step d ([], [], [])"

section \<open>Merge reconciler\<close>

datatype decision =
  D_original | D_modified | D_both | D_keep | D_discard | D_restore | D_accept

record DiffGroup =
  group_id :: nat  \<comment> \<open>the field \<open>id\<close>\<close>
  startIndex :: nat
  endIndex :: nat
  lines :: "nat list"
  diffIndices :: "nat list"
  group_type :: kind

fun getGroupIdForLine :: "DiffGroup list \<Rightarrow> nat \<Rightarrow> nat option" where
  "getGroupIdForLine [] lineIndex = None"
| "getGroupIdForLine (g # gs) lineIndex =
     (if lineIndex \<in> set (lines g) then Some (group_id g) else getGroupIdForLine gs lineIndex)"

definition decision_for :: "DiffGroup list \<Rightarrow> (nat \<rightharpoonup> decision) \<Rightarrow> nat \<Rightarrow> decision option" where
  \<comment> \<open>\<open>groupId !== null ? mergeDecisions.get(groupId) : null\<close>\<close>
  "decision_for diffGroups mergeDecisions i =
     (case getGroupIdForLine diffGroups i of None \<Rightarrow> None | Some groupId \<Rightarrow> mergeDecisions groupId)"

definition merge_item :: "SplitItem \<Rightarrow> SplitItem \<Rightarrow> decision option \<Rightarrow> jsstr option list" where
  \<comment> \<open>what one round of the loop of \<open>generateMergedCSS\<close> pushes onto \<open>lines\<close>\<close>
  "merge_item leftItem rightItem d =
     (if itype leftItem = I_unchanged then [content leftItem]
      else if itype leftItem = I_removed then
        (if d = Some D_restore \<or> d = Some D_original \<or> d = Some D_both
         then [content leftItem] else [])
      else if itype leftItem = I_empty \<and> itype rightItem = I_added then
        (if d = Some D_discard \<or> d = Some D_original then [] else [content rightItem])
      else if itype leftItem = I_modified then
        (if d = Some D_original then [content leftItem]
         else if d = Some D_both then [content leftItem, content rightItem]
         else [content rightItem])
      else [])"

definition merge_line ::
  "DiffEntry list \<Rightarrow> DiffGroup list \<Rightarrow> (nat \<rightharpoonup> decision) \<Rightarrow> nat \<Rightarrow> jsstr option list" where
  \<comment> \<open>round \<open>i\<close> of that loop\<close>
  "merge_line d diffGroups mergeDecisions i =
     (case generateSplitDiff d of (left, right, gutter) \<Rightarrow>
        merge_item (left ! i) (right ! i) (decision_for diffGroups mergeDecisions i))"

definition merged_lines ::
  "DiffEntry list \<Rightarrow> DiffGroup list \<Rightarrow> (nat \<rightharpoonup> decision) \<Rightarrow> jsstr option list" where
  "merged_lines d diffGroups mergeDecisions =
     (case generateSplitDiff d of (left, right, gutter) \<Rightarrow>
        fold (\<lambda>i acc. acc @ merge_line d diffGroups mergeDecisions i) [0..<length left] [])"

fun join_lines :: "jsstr option list \<Rightarrow> jsstr" where
  \<comment> \<open>\<open>lines.join('\n')\<close>; a null element is joined as the empty string\<close>
  "join_lines [] = []"
| "join_lines [l] = (case l of None \<Rightarrow> [] | Some s \<Rightarrow> s)"
| "join_lines (l # ls) = (case l of None \<Rightarrow> [] | Some s \<Rightarrow> s) @ [0x0A] @ join_lines ls"

definition generateMergedCSS ::
  "DiffResult option \<Rightarrow> DiffGroup list \<Rightarrow> (nat \<rightharpoonup> decision) \<Rightarrow> jsstr" where
  \<comment> \<open>the module state read by the function is passed in: \<open>diffResult\<close>, \<open>diffGroups\<close>
     and \<open>mergeDecisions\<close>\<close>
  "generateMergedCSS diffResult diffGroups mergeDecisions =
     (case diffResult of
        None \<Rightarrow> []
      | Some r \<Rightarrow> join_lines (merged_lines (result_diff r) diffGroups mergeDecisions))"

text \<open>
  The reconciler in the words of the specification. The output is the newline-joined
  sequence of the lines that the entries of the diff contribute, in their order. What an
  entry contributes depends on its kind and on the decision of its group: an unchanged
  entry gives its content; a removed entry gives its left content under restore, original
  or both, and nothing otherwise; an added entry gives nothing under discard or original,
  and its right content otherwise; a modified entry gives its left content under original,
  left then right under both, and its right content otherwise.
\<close>

definition line_text :: "jsstr option \<Rightarrow> jsstr" where
  \<comment> \<open>the text of an output line; a missing content is the empty line\<close>
  "line_text l = (case l of None \<Rightarrow> [] | Some s \<Rightarrow> s)"

fun newline_joined :: "jsstr option list \<Rightarrow> jsstr" where
  \<comment> \<open>the first line, then every further line after a line feed\<close>
  "newline_joined [] = []"
| "newline_joined (l # ls) = line_text l @ concat (map (\<lambda>x. 0x0A # line_text x) ls)"

definition reconciled :: "DiffEntry \<Rightarrow> decision option \<Rightarrow> jsstr option list" where
  "reconciled e dec =
     (case etype e of
        Unchanged \<Rightarrow> [leftContent e]
      | Removed \<Rightarrow>
          (if dec = Some D_restore \<or> dec = Some D_original \<or> dec = Some D_both
           then [leftContent e] else [])
      | Added \<Rightarrow>
          (if dec = Some D_discard \<or> dec = Some D_original then [] else [rightContent e])
      | Modified \<Rightarrow>
          (if dec = Some D_original then [leftContent e]
           else if dec = Some D_both then [leftContent e, rightContent e]
           else [rightContent e]))"

definition group_decision ::
  "DiffGroup list \<Rightarrow> (nat \<rightharpoonup> decision) \<Rightarrow> nat \<Rightarrow> decision option" where
  \<comment> \<open>the decision recorded under the id of the group that has entry \<open>i\<close> among its
     members, none when the entry is in no group or its group has no decision; the groups
     of a diff partition its changed entries, so an entry is a member of at most one\<close>
  "group_decision groups decisions i =
     (case find (\<lambda>g. i \<in> set (lines g)) groups of
        None \<Rightarrow> None
      | Some g \<Rightarrow> decisions (group_id g))"

text \<open>
  With no decision at all, the contribution of an entry is the default of its kind: the
  new side of a modification, the added line, nothing for a removed line.
\<close>

definition default_contribution :: "DiffEntry \<Rightarrow> jsstr option list" where
  "default_contribution e =
     (case etype e of
        Modified \<Rightarrow> [rightContent e]
      | Added \<Rightarrow> [rightContent e]
      | Removed \<Rightarrow> []
      | Unchanged \<Rightarrow> [leftContent e])"

section \<open>JSON diff tree\<close>

text \<open>
  A JSON-compatible value; the representation \<open>'n\<close> of numbers is left open. An object is
  the list of its own properties in key order, \<open>obj[key]\<close> is a lookup in that list, and
  a missing property or an index beyond the end of an array reads as \<open>undefined\<close>, which
  is \<open>None\<close> (properties inherited from \<open>Object.prototype\<close> are not modelled).
\<close>

datatype 'n json =
  JNull | JBool bool | JNum 'n | JStr jsstr | JArr "'n json list" | JObj "(jsstr \<times> 'n json) list"

datatype vtype = T_null | T_array | T_object | T_boolean | T_number | T_string | T_undefined

datatype node_key = K_name jsstr | K_index nat

datatype 'n DiffNode =
  DiffNode
    (node_key: "node_key option")  \<comment> \<open>the field \<open>key\<close>, set on children only\<close>
    (node_index: "nat option")  \<comment> \<open>the field \<open>index\<close>, set on array elements only\<close>
    (ntype: kind)  \<comment> \<open>the field \<open>type\<close>\<close>
    (path: jsstr)
    (oldValue: "'n json option")
    (newValue: "'n json option")
    (oldType: "vtype option")  \<comment> \<open>set on a type change only\<close>
    (newType: "vtype option")
    (valueType: vtype)
    (children: "'n DiffNode list option")  \<comment> \<open>\<open>None\<close> is \<open>null\<close>\<close>
    (hasChanges: "bool option")  \<comment> \<open>\<open>None\<close>: the node has no such field\<close>

definition getValueType :: "'n json option \<Rightarrow> vtype" where
  "getValueType v =
     (case v of
        None \<Rightarrow> T_undefined
      | Some JNull \<Rightarrow> T_null
      | Some (JArr xs) \<Rightarrow> T_array
      | Some (JObj kvs) \<Rightarrow> T_object
      | Some (JBool b) \<Rightarrow> T_boolean
      | Some (JNum n) \<Rightarrow> T_number
      | Some (JStr s) \<Rightarrow> T_string)"

definition object_entries :: "'n json option \<Rightarrow> (jsstr \<times> 'n json) list" where
  "object_entries v = (case v of Some (JObj kvs) \<Rightarrow> kvs | _ \<Rightarrow> [])"

definition array_items :: "'n json option \<Rightarrow> 'n json list" where
  "array_items v = (case v of Some (JArr xs) \<Rightarrow> xs | _ \<Rightarrow> [])"

definition object_keys :: "(jsstr \<times> 'n json) list \<Rightarrow> jsstr list" where
  \<comment> \<open>\<open>Object.keys(obj)\<close>\<close>
  "object_keys kvs = map fst kvs"

definition array_get :: "'a list \<Rightarrow> nat \<Rightarrow> 'a option" where
  \<comment> \<open>\<open>arr[i]\<close>\<close>
  "array_get xs i = (if i < length xs then Some (xs ! i) else None)"

function decimal :: "nat \<Rightarrow> jsstr" where
  \<comment> \<open>an index inside a template literal\<close>
  "decimal n = (if n < 10 then [of_nat (48 + n)] else decimal (n div 10) @ [of_nat (48 + n mod 10)])"
  by pat_completeness auto
termination
  by (relation "measure id") auto

declare decimal.simps [simp del]

definition key_path :: "jsstr \<Rightarrow> jsstr \<Rightarrow> jsstr" where
  \<comment> \<open>\<open>path ? `${path}.${key}` : key\<close>\<close>
  "key_path p key = (if p \<noteq> [] then p @ [0x2E] @ key else key)"

definition index_path :: "jsstr \<Rightarrow> nat \<Rightarrow> jsstr" where
  \<comment> \<open>\<open>`${path}[${i}]`\<close>\<close>
  "index_path p i = p @ [0x5B] @ decimal i @ [0x5D]"

definition with_key :: "node_key \<Rightarrow> nat option \<Rightarrow> 'n DiffNode \<Rightarrow> 'n DiffNode" where
  \<comment> \<open>\<open>{ key, ...child }\<close> and \<open>{ key: i, index: i, ...child }\<close>\<close>
  "with_key k i child =
     DiffNode (Some k) i (ntype child) (path child) (oldValue child) (newValue child)
       (oldType child) (newType child) (valueType child) (children child) (hasChanges child)"

lemma size_object_lookup:
  "map_of kvs k = Some v \<Longrightarrow> size v < size (JObj kvs)"
  by (induction kvs) (auto split: if_splits)

lemma size_array_get:
  "array_get xs i = Some v \<Longrightarrow> size v < size (JArr xs)"
proof -
  assume "array_get xs i = Some v"
  then have "v \<in> set xs" by (auto simp: array_get_def split: if_splits)
  then show ?thesis by (induction xs) auto
qed

function buildAddedTree :: "'n json option \<Rightarrow> jsstr \<Rightarrow> 'n DiffNode list option" where
  "buildAddedTree v p =
     (case v of
        Some (JArr xs) \<Rightarrow>
          Some (map (\<lambda>i. DiffNode (Some (K_index i)) (Some i) Added (index_path p i)
                             None (array_get xs i) None None (getValueType (array_get xs i))
                             (buildAddedTree (array_get xs i) (index_path p i)) None)
                  [0..<length xs])
      | Some (JObj kvs) \<Rightarrow>
          Some (map (\<lambda>key. DiffNode (Some (K_name key)) None Added (key_path p key)
                             None (map_of kvs key) None None (getValueType (map_of kvs key))
                             (buildAddedTree (map_of kvs key) (key_path p key)) None)
                  (sort (object_keys kvs)))
      | _ \<Rightarrow> None)"
  by pat_completeness auto
termination
proof (relation "measure (\<lambda>(v, p). case v of None \<Rightarrow> 0 | Some x \<Rightarrow> size x)", goal_cases)
  case 1
  show ?case by simp
next
  case (2 v p x xs i)
  then show ?case
    by (cases "array_get xs i") (auto dest: size_array_get)
next
  case (3 v p x kvs key)
  then show ?case
    by (cases "map_of kvs key") (auto dest: size_object_lookup)
qed

declare buildAddedTree.simps [simp del]

function buildRemovedTree :: "'n json option \<Rightarrow> jsstr \<Rightarrow> 'n DiffNode list option" where
  "buildRemovedTree v p =
     (case v of
        Some (JArr xs) \<Rightarrow>
          Some (map (\<lambda>i. DiffNode (Some (K_index i)) (Some i) Removed (index_path p i)
                             (array_get xs i) None None None (getValueType (array_get xs i))
                             (buildRemovedTree (array_get xs i) (index_path p i)) None)
                  [0..<length xs])
      | Some (JObj kvs) \<Rightarrow>
          Some (map (\<lambda>key. DiffNode (Some (K_name key)) None Removed (key_path p key)
                             (map_of kvs key) None None None (getValueType (map_of kvs key))
                             (buildRemovedTree (map_of kvs key) (key_path p key)) None)
                  (sort (object_keys kvs)))
      | _ \<Rightarrow> None)"
  by pat_completeness auto
termination
proof (relation "measure (\<lambda>(v, p). case v of None \<Rightarrow> 0 | Some x \<Rightarrow> size x)", goal_cases)
  case 1
  show ?case by simp
next
  case (2 v p x xs i)
  then show ?case
    by (cases "array_get xs i") (auto dest: size_array_get)
next
  case (3 v p x kvs key)
  then show ?case
    by (cases "map_of kvs key") (auto dest: size_object_lookup)
qed

declare buildRemovedTree.simps [simp del]

lemma size_lookup_less:
  "(case map_of kvs k of None \<Rightarrow> 0 | Some v \<Rightarrow> size v) < size (JObj kvs)"
  by (cases "map_of kvs k") (auto dest: size_object_lookup)

lemma size_array_get_less:
  "(case array_get xs i of None \<Rightarrow> 0 | Some v \<Rightarrow> size v) < size (JArr xs)"
  by (cases "array_get xs i") (auto dest: size_array_get)

lemma object_entries_type:
  "getValueType v = T_object \<Longrightarrow> v = Some (JObj (object_entries v))"
  by (auto simp: getValueType_def object_entries_def split: option.splits json.splits)

lemma array_items_type:
  "getValueType v = T_array \<Longrightarrow> v = Some (JArr (array_items v))"
  by (auto simp: getValueType_def array_items_def split: option.splits json.splits)

function compareJSON :: "'n json option \<Rightarrow> 'n json option \<Rightarrow> jsstr \<Rightarrow> 'n DiffNode option"
  and compareObjects ::
    "(jsstr \<times> 'n json) list \<Rightarrow> (jsstr \<times> 'n json) list \<Rightarrow> jsstr \<Rightarrow> 'n DiffNode"
  and compareArrays :: "'n json list \<Rightarrow> 'n json list \<Rightarrow> jsstr \<Rightarrow> 'n DiffNode"
where
  "compareJSON oldVal newVal p =
     (let oldType = getValueType oldVal;
          newType = getValueType newVal
      in
      if oldVal = None \<and> newVal = None then None
      else if oldVal = None then
        Some (DiffNode None None Added p None newVal None None newType
                (if newType = T_object \<or> newType = T_array then buildAddedTree newVal p else None)
                None)
      else if newVal = None then
        Some (DiffNode None None Removed p oldVal None None None oldType
                (if oldType = T_object \<or> oldType = T_array then buildRemovedTree oldVal p else None)
                None)
      else if oldType \<noteq> newType then
        Some (DiffNode None None Modified p oldVal newVal (Some oldType) (Some newType) newType
                None None)
      else if oldType = T_object then
        Some (compareObjects (object_entries oldVal) (object_entries newVal) p)
      else if oldType = T_array then
        Some (compareArrays (array_items oldVal) (array_items newVal) p)
      else if oldVal = newVal then
        Some (DiffNode None None Unchanged p oldVal newVal None None oldType None None)
      else
        Some (DiffNode None None Modified p oldVal newVal None None oldType None None))"
| "compareObjects oldObj newObj p =
     (let allKeys = new_Set (object_keys oldObj @ object_keys newObj);
          sortedKeys = sort allKeys;
          children = concat (map (\<lambda>key.
                        case compareJSON (map_of oldObj key) (map_of newObj key) (key_path p key) of
                          None \<Rightarrow> []
                        | Some child \<Rightarrow> [with_key (K_name key) None child])
                      sortedKeys);
          hasChanges = list_ex (\<lambda>child. ntype child \<noteq> Unchanged) children
      in DiffNode None None (if hasChanges then Modified else Unchanged) p
           (Some (JObj oldObj)) (Some (JObj newObj)) None None T_object
           (Some children) (Some hasChanges))"
| "compareArrays oldArr newArr p =
     (let maxLen = max (length oldArr) (length newArr);
          children = concat (map (\<lambda>i.
                        case compareJSON (array_get oldArr i) (array_get newArr i) (index_path p i) of
                          None \<Rightarrow> []
                        | Some child \<Rightarrow> [with_key (K_index i) (Some i) child])
                      [0..<maxLen]);
          hasChanges = list_ex (\<lambda>child. ntype child \<noteq> Unchanged) children
      in DiffNode None None (if hasChanges then Modified else Unchanged) p
           (Some (JArr oldArr)) (Some (JArr newArr)) None None T_array
           (Some children) (Some hasChanges))"
  by pat_completeness auto
termination
proof (relation "measure (\<lambda>x. case x of
           Inl (oldVal, newVal, p) \<Rightarrow>
             2 * ((case oldVal of None \<Rightarrow> 0 | Some v \<Rightarrow> size v) +
                  (case newVal of None \<Rightarrow> 0 | Some v \<Rightarrow> size v)) + 2
         | Inr (Inl (oldObj, newObj, p)) \<Rightarrow> 2 * (size (JObj oldObj) + size (JObj newObj)) + 1
         | Inr (Inr (oldArr, newArr, p)) \<Rightarrow> 2 * (size (JArr oldArr) + size (JArr newArr)) + 1)",
       goal_cases)
  case 1
  show ?case by simp
next
  case (2 oldVal newVal p x xa)
  then have "getValueType oldVal = T_object" "getValueType newVal = T_object" by simp_all
  from object_entries_type[OF this(1)] object_entries_type[OF this(2)]
  obtain oo no where "oldVal = Some (JObj oo)" "newVal = Some (JObj no)" by blast
  then show ?case by (simp add: object_entries_def)
next
  case (3 oldVal newVal p x xa)
  then have "getValueType oldVal = T_array" "getValueType newVal = T_array" by simp_all
  from array_items_type[OF this(1)] array_items_type[OF this(2)]
  obtain oa na where "oldVal = Some (JArr oa)" "newVal = Some (JArr na)" by blast
  then show ?case by (simp add: array_items_def)
next
  case (4 oldObj newObj p x xa xb)
  show ?case
    using size_lookup_less[of oldObj xb] size_lookup_less[of newObj xb] by simp
next
  case (5 oldArr newArr p x xa)
  show ?case
    using size_array_get_less[of oldArr xa] size_array_get_less[of newArr xa] by simp
qed

declare compareJSON.simps [simp del] compareObjects.simps [simp del] compareArrays.simps [simp del]

record ChangeCounts =
  count_added :: nat  \<comment> \<open>the field \<open>added\<close>\<close>
  count_removed :: nat
  count_modified :: nat

fun count_traverse :: "'n DiffNode \<Rightarrow> ChangeCounts \<Rightarrow> ChangeCounts" where
  \<comment> \<open>the inner function \<open>traverse\<close> of \<open>countChanges\<close>, on a node that is not null, with
     the counters passed through; \<open>!n.children\<close> holds exactly when \<open>children\<close> is null\<close>
  "count_traverse (DiffNode k i t p ov nv ot nt vt ch hc) counts =
     (let counts =
        (if t = Added \<and> ch = None then counts\<lparr>count_added := count_added counts + 1\<rparr>
         else if t = Removed \<and> ch = None then counts\<lparr>count_removed := count_removed counts + 1\<rparr>
         else if t = Modified \<and> ch = None then counts\<lparr>count_modified := count_modified counts + 1\<rparr>
         else counts)
      in case ch of None \<Rightarrow> counts | Some cs \<Rightarrow> fold count_traverse cs counts)"

definition countChanges :: "'n DiffNode option \<Rightarrow> ChangeCounts" where
  "countChanges node =
     (let counts = \<lparr>count_added = 0, count_removed = 0, count_modified = 0\<rparr>
      in case node of None \<Rightarrow> counts | Some n \<Rightarrow> count_traverse n counts)"

text \<open>All nodes of a tree, parents before children, and the number of its leaves of a kind.\<close>

fun all_nodes :: "'n DiffNode \<Rightarrow> 'n DiffNode list" where
  "all_nodes (DiffNode k i t p ov nv ot nt vt ch hc) =
     DiffNode k i t p ov nv ot nt vt ch hc #
     (case ch of None \<Rightarrow> [] | Some cs \<Rightarrow> concat (map all_nodes cs))"

definition leaf_count :: "kind \<Rightarrow> 'n DiffNode \<Rightarrow> nat" where
  "leaf_count k n = length (filter (\<lambda>x. ntype x = k \<and> children x = None) (all_nodes n))"

definition quiet_node :: "'n DiffNode \<Rightarrow> bool" where
  \<comment> \<open>unchanged, and \<open>hasChanges\<close> is false on an object or array node and absent elsewhere\<close>
  "quiet_node x \<longleftrightarrow>
     ntype x = Unchanged \<and>
     hasChanges x = (if valueType x = T_object \<or> valueType x = T_array then Some False else None)"






section \<open>Invariants of the edit-distance table\<close>

definition row0_inv :: "nat \<Rightarrow> nat \<Rightarrow> nat list list \<Rightarrow> bool" where
  "row0_inv n j m \<longleftrightarrow> length m = Suc n \<and> (\<forall>k. 0 < k \<and> k \<le> n \<longrightarrow> m ! k = [k]) \<and>
     length (m ! 0) = max 1 j \<and> m ! 0 ! 0 = 0"

definition diag_inv :: "nat \<Rightarrow> nat \<Rightarrow> nat list list \<Rightarrow> bool" where
  "diag_inv n i m \<longleftrightarrow> length m = Suc n \<and> (\<forall>k. i < k \<and> k \<le> n \<longrightarrow> m ! k = [k]) \<and>
     length (m ! i) = Suc n \<and> m ! i ! i = 0"

definition row_inv :: "nat \<Rightarrow> nat \<Rightarrow> nat \<Rightarrow> nat list list \<Rightarrow> bool" where
  "row_inv n i j m \<longleftrightarrow> length m = Suc n \<and> (\<forall>k. Suc i < k \<and> k \<le> n \<longrightarrow> m ! k = [k]) \<and>
     length (m ! i) = Suc n \<and> m ! i ! i = 0 \<and>
     length (m ! Suc i) = j \<and> (Suc i < j \<longrightarrow> m ! Suc i ! Suc i = 0)"

section \<open>Loop invariants\<close>

lemma fold_upt_invariant:
  assumes "P lo x" and "lo \<le> hi"
    and "\<And>j y. lo \<le> j \<Longrightarrow> j < hi \<Longrightarrow> P j y \<Longrightarrow> P (Suc j) (f j y)"
  shows "P hi (fold f [lo..<hi] x)"
  using assms(2,1,3)
proof (induction hi rule: dec_induct)
  case base
  then show ?case by simp
next
  case (step n)
  then show ?case by simp
qed

subsection \<open>The edit distance of a string to itself\<close>

lemma matrix0_eq: "fold (\<lambda>i m. arr_set m i [i]) [0..<k] [] = map (\<lambda>i. [i]) [0..<k]"
  by (induction k) (simp_all add: arr_set_def)

lemma matrix1_inv:
  "row0_inv n (Suc w) (fold (\<lambda>j m. mat_set m 0 j j) [0..<Suc w] (map (\<lambda>i. [i]) [0..<Suc n]))"
proof (rule fold_upt_invariant[where P = "row0_inv n"])
  show "row0_inv n 0 (map (\<lambda>i. [i]) [0..<Suc n])"
    unfolding row0_inv_def by (auto simp: nth_append simp del: upt_Suc)
next
  fix j y assume "row0_inv n j y"
  then show "row0_inv n (Suc j) (mat_set y 0 j j)"
    unfolding row0_inv_def mat_set_def arr_set_def
    by (auto simp: nth_append nth_list_update)
qed simp

lemma lev_cell_append:
  assumes "length (m ! i) = j" "i < length m"
  shows "\<exists>v. lev_cell a b i j m = m[i := m ! i @ [v]] \<and>
          (b ! (i - 1) = a ! (j - 1) \<longrightarrow> v = m ! (i - 1) ! (j - 1))"
  using assms unfolding lev_cell_def mat_set_def arr_set_def by auto

lemma lev_cell_row_inv:
  assumes inv: "row_inv n i j m" and j: "1 \<le> j" "j < Suc n" and i: "i < n"
  shows "row_inv n i (Suc j) (lev_cell a a (Suc i) j m)"
proof -
  from inv have len: "length m = Suc n" and rest: "\<forall>k. Suc i < k \<and> k \<le> n \<longrightarrow> m ! k = [k]"
    and li: "length (m ! i) = Suc n" and di: "m ! i ! i = 0"
    and lr: "length (m ! Suc i) = j" and dr: "Suc i < j \<longrightarrow> m ! Suc i ! Suc i = 0"
    unfolding row_inv_def by simp_all
  from lev_cell_append[OF lr, of a a] i len obtain v where
    eq: "lev_cell a a (Suc i) j m = m[Suc i := m ! Suc i @ [v]]"
    and v: "a ! i = a ! (j - 1) \<longrightarrow> v = m ! i ! (j - 1)"
    by auto
  have "Suc i < Suc j \<longrightarrow> (m ! Suc i @ [v]) ! Suc i = 0"
  proof
    assume "Suc i < Suc j"
    then consider "Suc i < j" | "Suc i = j" by linarith
    then show "(m ! Suc i @ [v]) ! Suc i = 0"
    proof cases
      case 1
      then show ?thesis using dr lr by (simp add: nth_append)
    next
      case 2
      then have "v = 0" using v di by auto
      then show ?thesis using 2 lr by (simp add: nth_append)
    qed
  qed
  then show ?thesis
    unfolding row_inv_def eq using len rest li di lr i
    by (simp add: nth_list_update)
qed

lemma lev_row_diag:
  assumes "diag_inv n i m" "i < n"
  shows "diag_inv n (Suc i) (fold (\<lambda>j m. lev_cell a a (Suc i) j m) [1..<Suc n] m)"
proof -
  have "row_inv n i (Suc n) (fold (\<lambda>j m. lev_cell a a (Suc i) j m) [1..<Suc n] m)"
  proof (rule fold_upt_invariant[where P = "row_inv n i"])
    show "row_inv n i 1 m" using assms unfolding diag_inv_def row_inv_def by auto
  next
    fix j y assume "1 \<le> j" "j < Suc n" "row_inv n i j y"
    then show "row_inv n i (Suc j) (lev_cell a a (Suc i) j y)"
      using lev_cell_row_inv assms(2) by blast
  qed simp
  then show ?thesis using assms(2) unfolding row_inv_def diag_inv_def by auto
qed

lemma levenshtein_same: "levenshteinDistance a a = 0"
proof (cases "a = []")
  case True
  then show ?thesis by (simp add: levenshteinDistance_def)
next
  case False
  define n where "n = length a"
  define m1 where "m1 = fold (\<lambda>j m. mat_set m 0 j j) [0..<Suc n] (map (\<lambda>i. [i]) [0..<Suc n])"
  define m2 where "m2 = fold (\<lambda>i m. fold (\<lambda>j m. lev_cell a a i j m) [1..<Suc n] m) [1..<Suc n] m1"
  have "row0_inv n (Suc n) m1" unfolding m1_def by (rule matrix1_inv)
  then have d0: "diag_inv n 0 m1" unfolding row0_inv_def diag_inv_def by auto
  have "diag_inv n (Suc n - 1) m2" unfolding m2_def
  proof (rule fold_upt_invariant[where P = "\<lambda>i. diag_inv n (i - 1)"])
    show "diag_inv n (1 - 1) m1" using d0 by simp
  next
    fix j y assume "1 \<le> j" "j < Suc n" "diag_inv n (j - 1) y"
    then show "diag_inv n (Suc j - 1) (fold (\<lambda>ja m. lev_cell a a j ja m) [1..<Suc n] y)"
      using lev_row_diag[of n "j - 1" y a] by simp
  qed simp
  then have "m2 ! n ! n = 0" by (simp add: diag_inv_def)
  moreover have "levenshteinDistance a a = m2 ! n ! n"
    using False unfolding levenshteinDistance_def Let_def matrix0_eq m2_def m1_def n_def by simp
  ultimately show ?thesis by simp
qed

text \<open>
  Claim C8. The similarity function gives 1 for every string against itself (the empty
  string included), 1 for two empty strings, and 0 for the empty string against any
  non-empty string.
\<close>

theorem similarityRatio_identical_and_empty:
  "similarityRatio a a = 1 \<and> similarityRatio [] ([] :: 'a list) = 1 \<and>
   similarityRatio [] (c # cs) = 0"
  by (simp add: similarityRatio_def levenshtein_same)

subsection \<open>Round trip of the raw alignment\<close>

lemma backtrack_loop_right:
  "i \<le> length a \<Longrightarrow> j \<le> length b \<Longrightarrow>
   map rightContent (filter (\<lambda>e. etype e = Unchanged \<or> etype e = Added)
       (backtrack_loop dp a b i j diff))
   = map Some (take j b) @
     map rightContent (filter (\<lambda>e. etype e = Unchanged \<or> etype e = Added) diff)"
proof (induction dp a b i j diff rule: backtrack_loop.induct)
  case (1 dp a b i j diff)
  have tk: "0 < j \<Longrightarrow> take j b = take (j - 1) b @ [b ! (j - 1)]"
    using "1.prems"(2) take_Suc_conv_app_nth[of "j - 1" b] by simp
  show ?case
    using "1.IH" "1.prems" tk
    by (subst backtrack_loop.simps) auto
qed

lemma backtrack_loop_left:
  "i \<le> length a \<Longrightarrow> j \<le> length b \<Longrightarrow>
   map leftContent (filter (\<lambda>e. etype e = Unchanged \<or> etype e = Removed)
       (backtrack_loop dp a b i j diff))
   = map Some (take i a) @
     map leftContent (filter (\<lambda>e. etype e = Unchanged \<or> etype e = Removed) diff)"
proof (induction dp a b i j diff rule: backtrack_loop.induct)
  case (1 dp a b i j diff)
  have tk: "0 < i \<Longrightarrow> take i a = take (i - 1) a @ [a ! (i - 1)]"
    using "1.prems"(1) take_Suc_conv_app_nth[of "i - 1" a] by simp
  show ?case
    using "1.IH" "1.prems" tk
    by (subst backtrack_loop.simps) auto
qed

text \<open>
  Claim C1. For all line sequences A and B, the raw alignment that backtracking the LCS
  table produces reconstructs both inputs: the right-side content of its unchanged and
  added entries, in output order, is B, and the left-side content of its unchanged and
  removed entries is A.
\<close>

theorem backtrackDiff_round_trip:
  "map rightContent (filter (\<lambda>e. etype e = Unchanged \<or> etype e = Added)
       (backtrackDiff (computeLCS a b) a b)) = map Some b \<and>
   map leftContent (filter (\<lambda>e. etype e = Unchanged \<or> etype e = Removed)
       (backtrackDiff (computeLCS a b) a b)) = map Some a"
  by (simp add: backtrackDiff_def backtrack_loop_right backtrack_loop_left)

subsection \<open>What the detector emits\<close>

lemma similarity_matrix_nth:
  "i < length rb \<Longrightarrow> j < length ab \<Longrightarrow>
   similarity_matrix rb ab ! i ! j = score (leftContent (rb ! i)) (rightContent (ab ! j))"
  by (simp add: similarity_matrix_def score_def)

lemma areSimilar_shape:
  "areSimilar a b t = (False, 0) \<or> areSimilar a b t = (True, 1) \<or>
   (\<exists>r. areSimilar a b t = (t \<le> r, r))"
  unfolding areSimilar_def Let_def by (simp split: if_split)

lemma areSimilar_threshold:
  "areSimilar a b t = (True, r) \<Longrightarrow> t \<le> 1 \<Longrightarrow> t \<le> r"
  using areSimilar_shape[of a b t] by auto

lemma score_positive: "0 < score a b \<Longrightarrow> 4 / 10 \<le> score a b"
  using areSimilar_threshold[of a b "4 / 10"]
  by (auto simp: score_def split: prod.splits if_splits)

lemma greedy_loop_good:
  "\<forall>m \<in> set ms. good_match rb ab S m \<Longrightarrow>
   \<forall>m \<in> set (greedy_loop rb ab S ms uR uA). good_match rb ab S m"
proof (induction rb ab S ms uR uA rule: greedy_loop.induct)
  case (1 rb ab S ms uR uA)
  obtain bi bj br where sb: "scan_best S (length rb) (length ab) uR uA = (bi, bj, br)"
    by (cases "scan_best S (length rb) (length ab) uR uA") auto
  show ?case
  proof (cases "length uR < length rb \<and> length uA < length ab \<and> 0 < br")
    case True
    from scan_best_fresh[OF sb] True
    have "good_match rb ab S \<lparr>removedIdx = bi, addedIdx = bj, removed = rb ! nat bi,
            added = ab ! nat bj, ratio = br\<rparr>"
      unfolding good_match_def by auto
    with "1.prems" have "\<forall>m \<in> set (ms @ [\<lparr>removedIdx = bi, addedIdx = bj, removed = rb ! nat bi,
            added = ab ! nat bj, ratio = br\<rparr>]). good_match rb ab S m" by simp
    from "1.IH"[OF _ sb[symmetric] refl _ this] True
    show ?thesis by (subst greedy_loop.simps) (simp add: sb)
  next
    case False
    then show ?thesis using "1.prems" by (subst greedy_loop.simps) (auto simp: sb)
  qed
qed

lemma findBestMatches_good:
  "m \<in> set (findBestMatches rb ab) \<Longrightarrow> good_match rb ab (similarity_matrix rb ab) m"
  using greedy_loop_good[of "[]" rb ab "similarity_matrix rb ab" "[]" "[]"]
  by (auto simp: findBestMatches_def split: if_splits)

lemma collect_block_members:
  assumes "collect_block k diff i [] = (block, i')" "x \<in> set block"
  shows "\<exists>t. t < length diff \<and> etype (diff ! t) = k \<and> x = to_block (diff ! t) t"
proof -
  let ?P = "\<lambda>e. etype e = k"
  let ?n = "length (takeWhile ?P (drop i diff))"
  from assms(1) have "block = map (\<lambda>t. to_block (diff ! t) t) [i..<i + ?n]"
    by (auto simp add: collect_block_eq)
  with assms(2) have "x \<in> (\<lambda>t. to_block (diff ! t) t) ` {i..<i + ?n}"
    by simp
  then obtain t where t: "i \<le> t" "t < i + ?n" "x = to_block (diff ! t) t" by auto
  have n: "?n \<le> length (drop i diff)" by (rule length_takeWhile_le)
  have tn: "t - i < ?n" using t by simp
  then have "takeWhile ?P (drop i diff) ! (t - i) \<in> set (takeWhile ?P (drop i diff))"
    by (rule nth_mem)
  then have "?P (takeWhile ?P (drop i diff) ! (t - i))"
    by (rule set_takeWhileD[THEN conjunct2])
  moreover have "takeWhile ?P (drop i diff) ! (t - i) = drop i diff ! (t - i)"
    using tn by (rule takeWhile_nth)
  moreover have "drop i diff ! (t - i) = diff ! t" using t n by simp
  ultimately have "etype (diff ! t) = k" by simp
  moreover have "t < length diff" using t n by simp
  ultimately show ?thesis using t(3) by blast
qed

lemma match_blocks_all:
  assumes Prb: "\<forall>x \<in> set rb. P (removed_entry x)"
    and Pab: "\<forall>x \<in> set ab. P (added_entry x)"
    and Pm: "\<forall>m \<in> set (findBestMatches rb ab). P (modified_entry m)"
  shows "\<forall>e \<in> set (match_blocks rb ab). P e"
proof -
  have "P (removed_entry (rb ! r))" if "r < length rb" for r
    using Prb that by simp
  moreover have "P (added_entry (ab ! a))" if "a < length ab" for a
    using Pab that by simp
  ultimately show ?thesis using Pm
    unfolding match_blocks_def Let_def by auto
qed

lemma detect_loop_all:
  assumes res: "\<forall>e \<in> set result. P e"
    and pass: "\<forall>e \<in> set diff. P e"
    and rem: "\<forall>t. t < length diff \<and> etype (diff ! t) = Removed \<longrightarrow>
                 P (removed_entry (to_block (diff ! t) t))"
    and add: "\<forall>t. t < length diff \<and> etype (diff ! t) = Added \<longrightarrow>
                 P (added_entry (to_block (diff ! t) t))"
    and mod: "\<forall>rb ab m.
        (\<forall>x \<in> set rb. \<exists>t. t < length diff \<and> etype (diff ! t) = Removed \<and> x = to_block (diff ! t) t) \<and>
        (\<forall>x \<in> set ab. \<exists>t. t < length diff \<and> etype (diff ! t) = Added \<and> x = to_block (diff ! t) t) \<and>
        m \<in> set (findBestMatches rb ab) \<longrightarrow> P (modified_entry m)"
  shows "\<forall>e \<in> set (detect_loop diff i result). P e"
  using assms
proof (induction diff i result rule: detect_loop.induct)
  case (1 diff i result)
  note res = "1.prems"(1) and pass = "1.prems"(2) and rem = "1.prems"(3)
    and add = "1.prems"(4) and mod = "1.prems"(5)
  show ?case
  proof (cases "i < length diff")
    case False
    then show ?thesis using res by (subst detect_loop.simps) simp
  next
    case True
    obtain rb i1 where c1: "collect_block Removed diff i [] = (rb, i1)"
      by (cases "collect_block Removed diff i []") auto
    obtain ab i2 where c2: "collect_block Added diff i1 [] = (ab, i2)"
      by (cases "collect_block Added diff i1 []") auto
    have rbm: "\<forall>x \<in> set rb. \<exists>t. t < length diff \<and> etype (diff ! t) = Removed \<and> x = to_block (diff ! t) t"
      using collect_block_members[OF c1] by simp
    have abm: "\<forall>x \<in> set ab. \<exists>t. t < length diff \<and> etype (diff ! t) = Added \<and> x = to_block (diff ! t) t"
      using collect_block_members[OF c2] by simp
    have Prb: "\<forall>x \<in> set rb. P (removed_entry x)"
    proof
      fix x assume "x \<in> set rb"
      with rbm obtain t where "t < length diff" "etype (diff ! t) = Removed"
        "x = to_block (diff ! t) t" by blast
      then show "P (removed_entry x)" using rem by simp
    qed
    have Pab: "\<forall>x \<in> set ab. P (added_entry x)"
    proof
      fix x assume "x \<in> set ab"
      with abm obtain t where "t < length diff" "etype (diff ! t) = Added"
        "x = to_block (diff ! t) t" by blast
      then show "P (added_entry x)" using add by simp
    qed
    have Pmb: "\<forall>e \<in> set (match_blocks rb ab). P e"
    proof (rule match_blocks_all[OF Prb Pab])
      show "\<forall>m \<in> set (findBestMatches rb ab). P (modified_entry m)"
        using mod rbm abm by blast
    qed
    have Pi: "P (diff ! i)" using pass True by simp
    note IH = "1.IH"[OF True c1[symmetric] c2[symmetric]]
    consider (both) "length rb > 0 \<and> length ab > 0"
      | (r) "\<not> (length rb > 0 \<and> length ab > 0)" "length rb > 0"
      | (a) "\<not> (length rb > 0 \<and> length ab > 0)" "\<not> length rb > 0" "length ab > 0"
      | (none) "\<not> (length rb > 0 \<and> length ab > 0)" "\<not> length rb > 0" "\<not> length ab > 0"
      by blast
    then show ?thesis
    proof cases
      case both
      have "\<forall>e \<in> set (result @ match_blocks rb ab). P e" using res Pmb by auto
      from IH(1)[OF both this pass rem add mod] show ?thesis
        using True both by (subst detect_loop.simps) (simp add: c1 c2)
    next
      case r
      have "\<forall>e \<in> set (result @ map removed_entry rb). P e" using res Prb by auto
      from IH(2)[OF r this pass rem add mod] show ?thesis
        using True r by (subst detect_loop.simps) (simp add: c1 c2)
    next
      case a
      have "\<forall>e \<in> set (result @ map added_entry ab). P e" using res Pab by auto
      from IH(3)[OF a this pass rem add mod] show ?thesis
        using True a by (subst detect_loop.simps) (simp add: c1 c2)
    next
      case none
      have "\<forall>e \<in> set (result @ [diff ! i]). P e" using res Pi by auto
      from IH(4)[OF none this pass rem add mod] show ?thesis
        using True none by (subst detect_loop.simps) (simp add: c1 c2)
    qed
  qed
qed

lemma backtrack_loop_raw:
  "\<forall>e \<in> set diff. well_shaped e \<and> etype e \<noteq> Modified \<Longrightarrow>
   \<forall>e \<in> set (backtrack_loop dp a b i j diff). well_shaped e \<and> etype e \<noteq> Modified"
proof (induction dp a b i j diff rule: backtrack_loop.induct)
  case (1 dp a b i j diff)
  show ?case
    using "1.IH" "1.prems"
    by (subst backtrack_loop.simps) (simp add: well_shaped_def)
qed

lemma backtrackDiff_raw:
  "\<forall>e \<in> set (backtrackDiff dp a b). well_shaped e \<and> etype e \<noteq> Modified"
  unfolding backtrackDiff_def by (rule backtrack_loop_raw) simp

lemma score_areSimilar:
  "0 < score a b \<Longrightarrow> areSimilar a b (4 / 10) = (True, score a b)"
  by (auto simp: score_def split: prod.splits if_splits)

lemma good_match_score:
  assumes "good_match rb ab (similarity_matrix rb ab) m"
  shows "ratio m = score (leftContent (removed m)) (rightContent (added m))" "0 < ratio m"
    "removed m \<in> set rb" "added m \<in> set ab"
  using assms unfolding good_match_def by (auto simp: similarity_matrix_nth)

lemma detectModifications_shape:
  assumes "\<forall>e \<in> set diff. well_shaped e"
  shows "\<forall>e \<in> set (detectModifications diff). well_shaped e"
  unfolding detectModifications_def
proof (rule detect_loop_all)
  show "\<forall>e \<in> set []. well_shaped e" by simp
  show "\<forall>e \<in> set diff. well_shaped e" by (rule assms)
  show "\<forall>t. t < length diff \<and> etype (diff ! t) = Removed \<longrightarrow>
          well_shaped (removed_entry (to_block (diff ! t) t))"
  proof (intro allI impI, elim conjE)
    fix t assume t: "t < length diff" "etype (diff ! t) = Removed"
    then have "well_shaped (diff ! t)" using assms by simp
    then show "well_shaped (removed_entry (to_block (diff ! t) t))"
      using t by (simp add: well_shaped_def removed_entry_def to_block_def)
  qed
  show "\<forall>t. t < length diff \<and> etype (diff ! t) = Added \<longrightarrow>
          well_shaped (added_entry (to_block (diff ! t) t))"
  proof (intro allI impI, elim conjE)
    fix t assume t: "t < length diff" "etype (diff ! t) = Added"
    then have "well_shaped (diff ! t)" using assms by simp
    then show "well_shaped (added_entry (to_block (diff ! t) t))"
      using t by (simp add: well_shaped_def added_entry_def to_block_def)
  qed
  show "\<forall>rb ab m.
        (\<forall>x \<in> set rb. \<exists>t. t < length diff \<and> etype (diff ! t) = Removed \<and> x = to_block (diff ! t) t) \<and>
        (\<forall>x \<in> set ab. \<exists>t. t < length diff \<and> etype (diff ! t) = Added \<and> x = to_block (diff ! t) t) \<and>
        m \<in> set (findBestMatches rb ab) \<longrightarrow> well_shaped (modified_entry m)"
  proof (intro allI impI, elim conjE)
    fix rb ab m
    assume rb: "\<forall>x \<in> set rb. \<exists>t. t < length diff \<and> etype (diff ! t) = Removed \<and> x = to_block (diff ! t) t"
      and ab: "\<forall>x \<in> set ab. \<exists>t. t < length diff \<and> etype (diff ! t) = Added \<and> x = to_block (diff ! t) t"
      and m: "m \<in> set (findBestMatches rb ab)"
    note g = good_match_score[OF findBestMatches_good[OF m]]
    from rb g(3) obtain t where t: "t < length diff" "etype (diff ! t) = Removed"
      "removed m = to_block (diff ! t) t" by blast
    from ab g(4) obtain u where u: "u < length diff" "etype (diff ! u) = Added"
      "added m = to_block (diff ! u) u" by blast
    have "well_shaped (diff ! t)" "well_shaped (diff ! u)" using assms t(1) u(1) by simp_all
    then show "well_shaped (modified_entry m)"
      using t u by (simp add: well_shaped_def modified_entry_def to_block_def)
  qed
qed

text \<open>
  Claim C9. Every entry that the aligner followed by the detector produces has the shape
  of its kind: unchanged and modified entries carry both line numbers, added entries
  only the right one, removed entries only the left one.
\<close>

theorem computeDiff_entries_well_shaped:
  "\<forall>e \<in> set (computeDiff_lines originalLines modifiedLines). well_shaped e"
  unfolding computeDiff_lines_def
  using detectModifications_shape backtrackDiff_raw by blast

text \<open>A run of the pipeline in which all four kinds of entry occur.\<close>

theorem computeDiff_entries_well_shaped_witness:
  "computeDiff_lines [js ''a'', js ''color: red;'', js ''b'']
      [js ''a'', js ''color: blue;'', js ''x'']
   = [\<lparr>etype = Unchanged, leftLine = Some 1, rightLine = Some 1,
        leftContent = Some (js ''a''), rightContent = Some (js ''a''), similarity = None\<rparr>,
      \<lparr>etype = Removed, leftLine = Some 3, rightLine = None,
        leftContent = Some (js ''b''), rightContent = None, similarity = None\<rparr>,
      \<lparr>etype = Modified, leftLine = Some 2, rightLine = Some 2,
        leftContent = Some (js ''color: red;''), rightContent = Some (js ''color: blue;''),
        similarity = Some (2 / 3)\<rparr>,
      \<lparr>etype = Added, leftLine = None, rightLine = Some 3,
        leftContent = None, rightContent = Some (js ''x''), similarity = None\<rparr>] \<and>
   well_shaped \<lparr>etype = Modified, leftLine = Some 2, rightLine = Some 2,
        leftContent = Some (js ''color: red;''), rightContent = Some (js ''color: blue;''),
        similarity = Some (2 / 3)\<rparr>"
proof -
  have ev: "computeDiff_lines [js ''a'', js ''color: red;'', js ''b'']
      [js ''a'', js ''color: blue;'', js ''x'']
   = [\<lparr>etype = Unchanged, leftLine = Some 1, rightLine = Some 1,
        leftContent = Some (js ''a''), rightContent = Some (js ''a''), similarity = None\<rparr>,
      \<lparr>etype = Removed, leftLine = Some 3, rightLine = None,
        leftContent = Some (js ''b''), rightContent = None, similarity = None\<rparr>,
      \<lparr>etype = Modified, leftLine = Some 2, rightLine = Some 2,
        leftContent = Some (js ''color: red;''), rightContent = Some (js ''color: blue;''),
        similarity = Some (2 / 3)\<rparr>,
      \<lparr>etype = Added, leftLine = None, rightLine = Some 3,
        leftContent = None, rightContent = Some (js ''x''), similarity = None\<rparr>]"
    by code_simp
  have "\<forall>e \<in> set (computeDiff_lines [js ''a'', js ''color: red;'', js ''b'']
      [js ''a'', js ''color: blue;'', js ''x'']). well_shaped e"
    by (rule computeDiff_entries_well_shaped)
  then have "well_shaped \<lparr>etype = Modified, leftLine = Some 2, rightLine = Some 2,
        leftContent = Some (js ''color: red;''), rightContent = Some (js ''color: blue;''),
        similarity = Some (2 / 3)\<rparr>"
    unfolding ev by simp
  with ev show ?thesis by (rule conjI)
qed

text \<open>
  Claim C10. On a raw script (no modified entry in the input), every modified entry the
  detector emits carries a similarity of at least the default threshold 0.4, and that
  similarity is the ratio with which \<open>areSimilar\<close> judged its two lines similar.
\<close>

theorem detectModifications_similarity_threshold:
  assumes "\<forall>x \<in> set diff. etype x \<noteq> Modified"
  shows "\<forall>e \<in> set (detectModifications diff). etype e = Modified \<longrightarrow>
           (\<exists>r. similarity e = Some r \<and> 4 / 10 \<le> r \<and>
                areSimilar (leftContent e) (rightContent e) (4 / 10) = (True, r))"
  unfolding detectModifications_def
proof (rule detect_loop_all)
  let ?P = "\<lambda>e. etype e = Modified \<longrightarrow>
           (\<exists>r. similarity e = Some r \<and> 4 / 10 \<le> r \<and>
                areSimilar (leftContent e) (rightContent e) (4 / 10) = (True, r))"
  show "\<forall>e \<in> set []. ?P e" by simp
  show "\<forall>e \<in> set diff. ?P e" using assms by simp
  show "\<forall>t. t < length diff \<and> etype (diff ! t) = Removed \<longrightarrow>
          ?P (removed_entry (to_block (diff ! t) t))"
    by (simp add: removed_entry_def)
  show "\<forall>t. t < length diff \<and> etype (diff ! t) = Added \<longrightarrow>
          ?P (added_entry (to_block (diff ! t) t))"
    by (simp add: added_entry_def)
  show "\<forall>rb ab m.
        (\<forall>x \<in> set rb. \<exists>t. t < length diff \<and> etype (diff ! t) = Removed \<and> x = to_block (diff ! t) t) \<and>
        (\<forall>x \<in> set ab. \<exists>t. t < length diff \<and> etype (diff ! t) = Added \<and> x = to_block (diff ! t) t) \<and>
        m \<in> set (findBestMatches rb ab) \<longrightarrow> ?P (modified_entry m)"
  proof (intro allI impI, elim conjE)
    fix rb ab m
    assume m: "m \<in> set (findBestMatches rb ab)"
    note g = good_match_score[OF findBestMatches_good[OF m]]
    from g(1,2) have pos: "0 < score (leftContent (removed m)) (rightContent (added m))" by simp
    from score_positive[OF pos] score_areSimilar[OF pos] g(1)
    show "\<exists>r. similarity (modified_entry m) = Some r \<and> 4 / 10 \<le> r \<and>
       areSimilar (leftContent (modified_entry m)) (rightContent (modified_entry m)) (4 / 10) = (True, r)"
      by (simp add: modified_entry_def)
  qed
qed

text \<open>The detector on one removed line followed by its edited version.\<close>

theorem detectModifications_similarity_threshold_witness:
  "detectModifications
     [\<lparr>etype = Removed, leftLine = Some 1, rightLine = None,
        leftContent = Some (js ''color: red;''), rightContent = None, similarity = None\<rparr>,
      \<lparr>etype = Added, leftLine = None, rightLine = Some 1,
        leftContent = None, rightContent = Some (js ''color: blue;''), similarity = None\<rparr>]
   = [\<lparr>etype = Modified, leftLine = Some 1, rightLine = Some 1,
        leftContent = Some (js ''color: red;''), rightContent = Some (js ''color: blue;''),
        similarity = Some (2 / 3)\<rparr>] \<and>
   (\<exists>r. Some (2 / 3) = Some r \<and> 4 / 10 \<le> r \<and>
      areSimilar (Some (js ''color: red;'')) (Some (js ''color: blue;'')) (4 / 10) = (True, r))"
proof -
  let ?D = "[\<lparr>etype = Removed, leftLine = Some 1, rightLine = None,
        leftContent = Some (js ''color: red;''), rightContent = None, similarity = None\<rparr>,
      \<lparr>etype = Added, leftLine = None, rightLine = Some 1,
        leftContent = None, rightContent = Some (js ''color: blue;''), similarity = None\<rparr>]"
  have h: "\<forall>x \<in> set ?D. etype x \<noteq> Modified"
    by simp
  have ev: "detectModifications ?D
   = [\<lparr>etype = Modified, leftLine = Some 1, rightLine = Some 1,
        leftContent = Some (js ''color: red;''), rightContent = Some (js ''color: blue;''),
        similarity = Some (2 / 3)\<rparr>]"
    by code_simp
  have "\<exists>r. Some (2 / 3) = Some r \<and> 4 / 10 \<le> r \<and>
      areSimilar (Some (js ''color: red;'')) (Some (js ''color: blue;'')) (4 / 10) = (True, r)"
    using detectModifications_similarity_threshold[OF h] unfolding ev by simp
  with ev show ?thesis by (rule conjI)
qed

subsection \<open>The shared-prefix floor\<close>

lemma substring_from_0: "n \<le> length s \<Longrightarrow> substring s 0 n = take n s"
  by (simp add: substring_def Let_def)

lemma normalize_empty: "collapse_spaces (trim []) = []"
  by (simp add: trim_def)

text \<open>
  Claim C7, as amended. The shared-prefix floor carries a guard: it applies when the
  compared prefix, of length min(10, min(|a|, |b|)) on the normalized lines, is longer
  than 3 characters. Then two lines whose non-empty normalized forms agree on that prefix
  get a ratio of at least 0.5 and are judged similar under the default threshold 0.4.
\<close>

theorem areSimilar_prefix_floor:
  assumes na: "collapse_spaces (trim a) \<noteq> []" and nb: "collapse_spaces (trim b) \<noteq> []"
    and len: "3 < min 10 (min (length (collapse_spaces (trim a))) (length (collapse_spaces (trim b))))"
    and pre: "take (min 10 (min (length (collapse_spaces (trim a))) (length (collapse_spaces (trim b)))))
                (collapse_spaces (trim a))
            = take (min 10 (min (length (collapse_spaces (trim a))) (length (collapse_spaces (trim b)))))
                (collapse_spaces (trim b))"
  shows "5 / 10 \<le> snd (areSimilar (Some a) (Some b) (4 / 10)) \<and>
         fst (areSimilar (Some a) (Some b) (4 / 10))"
proof -
  let ?A = "collapse_spaces (trim a)" and ?B = "collapse_spaces (trim b)"
  have a: "a \<noteq> []" using na normalize_empty by auto
  have b: "b \<noteq> []" using nb normalize_empty by auto
  have sub: "substring ?A 0 (min 10 (min (length ?A) (length ?B)))
           = substring ?B 0 (min 10 (min (length ?A) (length ?B)))"
    using pre by (simp add: substring_from_0)
  show ?thesis
  proof (cases "?A = ?B")
    case True
    then show ?thesis using a b unfolding areSimilar_def Let_def by (simp add: truthy_def)
  next
    case False
    then have nobrace: "\<not> (?A = [0x7D] \<and> ?B = [0x7D])" by auto
    have "areSimilar (Some a) (Some b) (4 / 10) =
      (let r = (let ratio = similarityRatio ?A ?B;
              propA = match_property ?A;
              propB = match_property ?B;
              ratio = (if truthy propA \<and> truthy propB \<and> propA = propB
                       then max ratio (6 / 10) else ratio);
              selectorA = match_selector ?A;
              selectorB = match_selector ?B
           in (if truthy selectorA \<and> truthy selectorB then
                         let selectorRatio = similarityRatio (the selectorA) (the selectorB)
                         in if selectorRatio > 7 / 10 then max ratio (65 / 100) else ratio
                       else ratio))
       in (4 / 10 \<le> max r (5 / 10), max r (5 / 10)))"
      unfolding areSimilar_def Let_def
      using a b na nb False nobrace len sub
      by (simp only: truthy_def option.case option.sel if_False if_True simp_thms)
    then show ?thesis by (simp add: Let_def)
  qed
qed

theorem areSimilar_prefix_floor_witness:
  "areSimilar (Some (js ''abcd'')) (Some (js ''abcd 123456789'')) (4 / 10) = (True, 1 / 2) \<and>
   5 / 10 \<le> snd (areSimilar (Some (js ''abcd'')) (Some (js ''abcd 123456789'')) (4 / 10)) \<and>
   fst (areSimilar (Some (js ''abcd'')) (Some (js ''abcd 123456789'')) (4 / 10))"
proof -
  have h1: "collapse_spaces (trim (js ''abcd'')) \<noteq> []" by code_simp
  have h2: "collapse_spaces (trim (js ''abcd 123456789'')) \<noteq> []" by code_simp
  have h3: "3 < min 10 (min (length (collapse_spaces (trim (js ''abcd''))))
                  (length (collapse_spaces (trim (js ''abcd 123456789'')))))"
    by code_simp
  have h4: "take (min 10 (min (length (collapse_spaces (trim (js ''abcd''))))
                   (length (collapse_spaces (trim (js ''abcd 123456789''))))))
                (collapse_spaces (trim (js ''abcd'')))
            = take (min 10 (min (length (collapse_spaces (trim (js ''abcd''))))
                   (length (collapse_spaces (trim (js ''abcd 123456789''))))))
                (collapse_spaces (trim (js ''abcd 123456789'')))"
    by code_simp
  have ev: "areSimilar (Some (js ''abcd'')) (Some (js ''abcd 123456789'')) (4 / 10) = (True, 1 / 2)"
    by code_simp
  from ev areSimilar_prefix_floor[OF h1 h2 h3 h4] show ?thesis by (rule conjI)
qed

text \<open>
  Claim C7 as stated fails below the guard: the normalized lines \<open>a\<close> and
  \<open>abcdefghij\<close> agree on their first min(10, min(1, 10)) = 1 character, yet the ratio
  is 0.1 and the pair is not judged similar.
\<close>

theorem areSimilar_short_prefix_counterexample:
  "collapse_spaces (trim (js ''a'')) = js ''a'' \<and>
   collapse_spaces (trim (js ''abcdefghij'')) = js ''abcdefghij'' \<and>
   js ''a'' \<noteq> [] \<and> js ''abcdefghij'' \<noteq> [] \<and>
   take (min 10 (min (length (js ''a'')) (length (js ''abcdefghij'')))) (js ''a'')
     = take (min 10 (min (length (js ''a'')) (length (js ''abcdefghij'')))) (js ''abcdefghij'') \<and>
   areSimilar (Some (js ''a'')) (Some (js ''abcdefghij'')) (4 / 10) = (False, 1 / 10)"
  by code_simp

subsection \<open>Round trip of the inline differ\<close>

lemma prefix_loop_inv:
  "p \<le> minLen \<Longrightarrow> minLen \<le> length old \<Longrightarrow> minLen \<le> length new \<Longrightarrow>
   take p old = take p new \<Longrightarrow>
   prefix_loop old new minLen p \<le> minLen \<and>
   take (prefix_loop old new minLen p) old = take (prefix_loop old new minLen p) new"
proof (induction old new minLen p rule: prefix_loop.induct)
  case (1 old new minLen p)
  show ?case
  proof (cases "p < minLen \<and> old ! p = new ! p")
    case True
    then have "take (p + 1) old = take (p + 1) new"
      using "1.prems" by (simp add: take_Suc_conv_app_nth)
    moreover have "prefix_loop old new minLen p = prefix_loop old new minLen (p + 1)"
      using True by (subst prefix_loop.simps) simp
    ultimately show ?thesis using "1.IH"[OF True] "1.prems" True by simp
  next
    case False
    then have "prefix_loop old new minLen p = p"
      by (subst prefix_loop.simps) auto
    with "1.prems" show ?thesis by simp
  qed
qed

lemma suffix_loop_inv:
  "s \<le> minLen - p \<Longrightarrow> minLen \<le> length old \<Longrightarrow> minLen \<le> length new \<Longrightarrow>
   drop (length old - s) old = drop (length new - s) new \<Longrightarrow>
   suffix_loop old new minLen p s \<le> minLen - p \<and>
   drop (length old - suffix_loop old new minLen p s) old
     = drop (length new - suffix_loop old new minLen p s) new"
proof (induction old new minLen p s rule: suffix_loop.induct)
  case (1 old new minLen p s)
  show ?case
  proof (cases "s < minLen - p \<and> old ! (length old - 1 - s) = new ! (length new - 1 - s)")
    case True
    then have so: "s < length old" and sn: "s < length new" using "1.prems" by auto
    have o: "drop (length old - (s + 1)) old = old ! (length old - 1 - s) # drop (length old - s) old"
      using so Cons_nth_drop_Suc[of "length old - 1 - s" old]
      by (simp add: Suc_diff_Suc)
    have n: "drop (length new - (s + 1)) new = new ! (length new - 1 - s) # drop (length new - s) new"
      using sn Cons_nth_drop_Suc[of "length new - 1 - s" new]
      by (simp add: Suc_diff_Suc)
    have "drop (length old - (s + 1)) old = drop (length new - (s + 1)) new"
      unfolding o n using True "1.prems" by simp
    moreover have "suffix_loop old new minLen p s = suffix_loop old new minLen p (s + 1)"
      using True by (subst suffix_loop.simps) simp
    ultimately show ?thesis using "1.IH"[OF True] "1.prems" True by simp
  next
    case False
    then have "suffix_loop old new minLen p s = s"
      by (subst suffix_loop.simps) auto
    with "1.prems" show ?thesis by simp
  qed
qed

lemma concat_push_if:
  "concat (map seg_text (push_if s c result)) = concat (map seg_text result) @ s"
  by (simp add: push_if_def)

lemma push_if_Nil_iff: "push_if s c result = [] \<longleftrightarrow> s = [] \<and> result = []"
  by (simp add: push_if_def)

lemma findInlineDiff_round_trip:
  "concat (map seg_text (fst (findInlineDiff (Some old) (Some new)))) = old \<and>
   concat (map seg_text (snd (findInlineDiff (Some old) (Some new)))) = new"
proof -
  define minLen where "minLen = min (length old) (length new)"
  define p where "p = prefix_loop old new minLen 0"
  define s where "s = suffix_loop old new minLen p 0"
  have oe: "or_empty (Some old) = old" "or_empty (Some new) = new"
    by (auto simp: or_empty_def truthy_def)
  have ml: "minLen \<le> length old" "minLen \<le> length new" by (simp_all add: minLen_def)
  have p: "p \<le> minLen" "take p old = take p new"
    using prefix_loop_inv[of 0 minLen old new] ml by (simp_all add: p_def)
  have s: "s \<le> minLen - p" "drop (length old - s) old = drop (length new - s) new"
    using suffix_loop_inv[of 0 minLen p old new] ml by (simp_all add: s_def)
  have ps: "p + s \<le> length old" "p + s \<le> length new" using p s ml by auto
  have pl: "p \<le> length old - s" "p \<le> length new - s" using ps by linarith+
  have om: "substring old p (length old - s) = take (length old - s - p) (drop p old)"
    using pl ps by (simp add: substring_def Let_def min_def max_def)
  have nm: "substring new p (length new - s) = take (length new - s - p) (drop p new)"
    using pl ps by (simp add: substring_def Let_def min_def max_def)
  have pre: "substring old 0 p = take p old"
    using ps by (simp add: substring_def Let_def min_def max_def)
  have suf: "substring old (length old - s) (length old) = drop (length old - s) old"
    by (simp add: substring_def Let_def min_def max_def)
  have old_eq: "take p old @ take (length old - s - p) (drop p old) @ drop (length old - s) old = old"
  proof -
    have "take (length old - s - p) (drop p old) @ drop (length old - s) old = drop p old"
      using ps append_take_drop_id[of "length old - s - p" "drop p old"] by (simp add: add.commute)
    then show ?thesis by simp
  qed
  have new_eq: "take p old @ take (length new - s - p) (drop p new) @ drop (length old - s) old = new"
  proof -
    have "take (length new - s - p) (drop p new) @ drop (length new - s) new = drop p new"
      using ps append_take_drop_id[of "length new - s - p" "drop p new"] by (simp add: add.commute)
    then show ?thesis using p(2) s(2) by simp
  qed
  show ?thesis
    unfolding findInlineDiff_def oe Let_def
      minLen_def[symmetric] p_def[symmetric] s_def[symmetric] om nm pre suf
    using old_eq new_eq
    by (auto simp: concat_push_if push_if_Nil_iff)
qed

lemma tokenize_step_simp:
  "tokenize_step c (tokens, current, isSpace) =
     (if current \<noteq> [] \<and> is_space c \<noteq> isSpace
      then (tokens @ [current], [c], is_space c)
      else (tokens, current @ [c], is_space c))"
  by (simp add: tokenize_step_def)

lemma tokenize_fold_concat:
  "fold tokenize_step str (tokens, current, isSpace) = (tokens', current', isSpace') \<Longrightarrow>
   concat tokens' @ current' = concat tokens @ current @ str"
proof (induction str arbitrary: tokens current isSpace)
  case Nil
  then show ?case by simp
next
  case (Cons c cs)
  show ?case
  proof (cases "current \<noteq> [] \<and> is_space c \<noteq> isSpace")
    case True
    then have "fold tokenize_step cs (tokens @ [current], [c], is_space c) = (tokens', current', isSpace')"
      using Cons.prems by (simp add: tokenize_step_simp)
    from Cons.IH[OF this] show ?thesis by simp
  next
    case False
    then have "tokenize_step c (tokens, current, isSpace) = (tokens, current @ [c], is_space c)"
      unfolding tokenize_step_simp by (rule if_not_P)
    then have "fold tokenize_step cs (tokens, current @ [c], is_space c) = (tokens', current', isSpace')"
      using Cons.prems by simp
    from Cons.IH[OF this] show ?thesis by simp
  qed
qed

lemma concat_tokenize: "concat (tokenize str) = str"
proof -
  obtain tokens current isSpace where
    f: "fold tokenize_step str ([], [], False) = (tokens, current, isSpace)"
    by (cases "fold tokenize_step str ([], [], False)") auto
  from tokenize_fold_concat[OF f] show ?thesis
    by (auto simp: tokenize_def f)
qed

lemma words_loop_round_trip:
  "i \<le> length oldTokens \<Longrightarrow> j \<le> length newTokens \<Longrightarrow>
   words_loop dp oldTokens newTokens i j oldResult newResult = (r1, r2) \<Longrightarrow>
   concat (map seg_text r1) = concat (take i oldTokens) @ concat (map seg_text oldResult) \<and>
   concat (map seg_text r2) = concat (take j newTokens) @ concat (map seg_text newResult)"
proof (induction dp oldTokens newTokens i j oldResult newResult rule: words_loop.induct)
  case (1 dp oldTokens newTokens i j oldResult newResult)
  have ti: "0 < i \<Longrightarrow> take i oldTokens = take (i - 1) oldTokens @ [oldTokens ! (i - 1)]"
    using "1.prems"(1) take_Suc_conv_app_nth[of "i - 1" oldTokens] by simp
  have tj: "0 < j \<Longrightarrow> take j newTokens = take (j - 1) newTokens @ [newTokens ! (j - 1)]"
    using "1.prems"(2) take_Suc_conv_app_nth[of "j - 1" newTokens] by simp
  consider (stop) "\<not> (i > 0 \<or> j > 0)"
    | (same) "i > 0 \<or> j > 0" "i > 0 \<and> j > 0 \<and> oldTokens ! (i - 1) = newTokens ! (j - 1)"
    | (add) "i > 0 \<or> j > 0" "\<not> (i > 0 \<and> j > 0 \<and> oldTokens ! (i - 1) = newTokens ! (j - 1))"
        "j > 0 \<and> (i = 0 \<or> dp ! i ! (j - 1) \<ge> dp ! (i - 1) ! j)"
    | (rem) "i > 0 \<or> j > 0" "\<not> (i > 0 \<and> j > 0 \<and> oldTokens ! (i - 1) = newTokens ! (j - 1))"
        "\<not> (j > 0 \<and> (i = 0 \<or> dp ! i ! (j - 1) \<ge> dp ! (i - 1) ! j))"
    by blast
  then show ?case
  proof cases
    case stop
    then have "words_loop dp oldTokens newTokens i j oldResult newResult = (oldResult, newResult)"
      by (subst words_loop.simps) simp
    with stop "1.prems"(3) show ?thesis by simp
  next
    case same
    have "words_loop dp oldTokens newTokens i j oldResult newResult =
          words_loop dp oldTokens newTokens (i - 1) (j - 1)
            (\<lparr>seg_text = oldTokens ! (i - 1), changed = False\<rparr> # oldResult)
            (\<lparr>seg_text = newTokens ! (j - 1), changed = False\<rparr> # newResult)"
      using same by (subst words_loop.simps) simp
    with "1.prems"(3) have "words_loop dp oldTokens newTokens (i - 1) (j - 1)
            (\<lparr>seg_text = oldTokens ! (i - 1), changed = False\<rparr> # oldResult)
            (\<lparr>seg_text = newTokens ! (j - 1), changed = False\<rparr> # newResult) = (r1, r2)"
      by simp
    from "1.IH"(1)[OF same _ _ this] "1.prems"(1,2) ti tj same show ?thesis by simp
  next
    case add
    have "words_loop dp oldTokens newTokens i j oldResult newResult =
          words_loop dp oldTokens newTokens i (j - 1) oldResult
            (\<lparr>seg_text = newTokens ! (j - 1), changed = True\<rparr> # newResult)"
      using add by (subst words_loop.simps) auto
    with "1.prems"(3) have "words_loop dp oldTokens newTokens i (j - 1) oldResult
            (\<lparr>seg_text = newTokens ! (j - 1), changed = True\<rparr> # newResult) = (r1, r2)"
      by simp
    from "1.IH"(2)[OF add _ _ this] "1.prems"(1,2) tj add show ?thesis by simp
  next
    case rem
    then have i: "0 < i" by auto
    have "words_loop dp oldTokens newTokens i j oldResult newResult =
          words_loop dp oldTokens newTokens (i - 1) j
            (\<lparr>seg_text = oldTokens ! (i - 1), changed = True\<rparr> # oldResult) newResult"
      using rem by (subst words_loop.simps) auto
    with "1.prems"(3) have "words_loop dp oldTokens newTokens (i - 1) j
            (\<lparr>seg_text = oldTokens ! (i - 1), changed = True\<rparr> # oldResult) newResult = (r1, r2)"
      by simp
    from "1.IH"(3)[OF rem _ _ this] "1.prems"(1,2) ti i show ?thesis by simp
  qed
qed

lemma concat_merge_step:
  "concat (map seg_text (merge_step item merged)) = concat (map seg_text merged) @ seg_text item"
proof (cases "length merged > 0 \<and> changed (last merged) = changed item")
  case True
  then have m: "butlast merged @ [last merged] = merged" by simp
  have "concat (map seg_text (butlast merged @ [last merged]))
      = concat (map seg_text (butlast merged)) @ seg_text (last merged)"
    by (simp del: append_butlast_last_id)
  then have "concat (map seg_text merged)
      = concat (map seg_text (butlast merged)) @ seg_text (last merged)"
    unfolding m .
  then show ?thesis using True by (simp add: merge_step_def)
next
  case False
  then show ?thesis by (auto simp: merge_step_def)
qed

lemma concat_fold_merge:
  "concat (map seg_text (fold merge_step arr merged))
   = concat (map seg_text merged) @ concat (map seg_text arr)"
  by (induction arr arbitrary: merged) (simp_all add: concat_merge_step)

lemma concat_merge_segments:
  "concat (map seg_text (merge_segments arr)) = concat (map seg_text arr)"
  by (simp add: merge_segments_def concat_fold_merge)

lemma findInlineDiffWords_round_trip:
  "concat (map seg_text (fst (findInlineDiffWords (Some old) (Some new)))) = old \<and>
   concat (map seg_text (snd (findInlineDiffWords (Some old) (Some new)))) = new"
proof -
  have oe: "or_empty (Some old) = old" "or_empty (Some new) = new"
    by (auto simp: or_empty_def truthy_def)
  obtain r1 r2 where w: "words_loop (computeLCS (tokenize old) (tokenize new)) (tokenize old)
     (tokenize new) (length (tokenize old)) (length (tokenize new)) [] [] = (r1, r2)"
    by (cases "words_loop (computeLCS (tokenize old) (tokenize new)) (tokenize old)
     (tokenize new) (length (tokenize old)) (length (tokenize new)) [] []") auto
  from words_loop_round_trip[OF _ _ w]
  have "concat (map seg_text r1) = old" "concat (map seg_text r2) = new"
    by (simp_all add: concat_tokenize)
  then show ?thesis
    unfolding findInlineDiffWords_def oe Let_def w
    by (simp add: concat_merge_segments)
qed

text \<open>
  Claim C4. For every pair of strings, both inline strategies (the character-level
  prefix/suffix trim and the token-level LCS with coalescing) give segment lists whose
  texts, joined in order, are the old string on the old side and the new string on the
  new side.
\<close>

theorem inline_diff_round_trip:
  "concat (map seg_text (fst (findInlineDiff (Some old) (Some new)))) = old \<and>
   concat (map seg_text (snd (findInlineDiff (Some old) (Some new)))) = new \<and>
   concat (map seg_text (fst (findInlineDiffWords (Some old) (Some new)))) = old \<and>
   concat (map seg_text (snd (findInlineDiffWords (Some old) (Some new)))) = new"
  using findInlineDiff_round_trip[of old new] findInlineDiffWords_round_trip[of old new]
  by simp

subsection \<open>The merge reconciler\<close>

lemma fold_split_step:
  "fold split_step d (l, r, g) =
     (l @ map left_item d, r @ map right_item d, g @ map gutter_item d)"
  by (induction d arbitrary: l r g) (simp_all add: split_step_def)

lemma generateSplitDiff_nth:
  assumes "i < length d"
  shows "generateSplitDiff d = (left, right, gutter) \<Longrightarrow>
         length left = length d \<and>
         left ! i = left_item (d ! i) \<and>
         right ! i = right_item (d ! i)"
  using assms unfolding generateSplitDiff_def fold_split_step by auto

lemma merge_line_entry:
  assumes "i < length d"
  shows "merge_line d groups dec i =
     merge_item (left_item (d ! i))
       (right_item (d ! i))
       (decision_for groups dec i)"
proof -
  obtain left right gutter where g: "generateSplitDiff d = (left, right, gutter)"
    by (cases "generateSplitDiff d") auto
  from generateSplitDiff_nth[OF assms g] show ?thesis
    by (simp add: merge_line_def g)
qed

lemma fold_append_lines:
  "fold (\<lambda>i acc. acc @ f i) xs acc0 = acc0 @ concat (map f xs)"
  by (induction xs arbitrary: acc0) simp_all

lemma merged_lines_concat:
  "merged_lines d groups dec = concat (map (merge_line d groups dec) [0..<length d])"
proof -
  obtain left right gutter where g: "generateSplitDiff d = (left, right, gutter)"
    by (cases "generateSplitDiff d") auto
  then have "length left = length d"
    unfolding generateSplitDiff_def fold_split_step by auto
  then show ?thesis by (simp add: merged_lines_def g fold_append_lines)
qed

lemma join_lines_newline_joined: "join_lines ls = newline_joined ls"
proof (induction ls rule: join_lines.induct)
  case 1
  show ?case by simp
next
  case (2 l)
  show ?case by (simp add: line_text_def)
next
  case (3 l v va)
  then show ?case by (simp add: line_text_def)
qed

lemma decision_for_group_decision:
  "decision_for groups dec i = group_decision groups dec i"
  unfolding decision_for_def group_decision_def
  by (induction groups) simp_all

lemma merge_item_reconciled:
  "merge_item (left_item e) (right_item e) dopt = reconciled e dopt"
  by (cases "etype e")
     (simp_all add: left_item_def right_item_def merge_item_def reconciled_def)

lemma merge_line_reconciled:
  assumes "i < length d"
  shows "merge_line d groups dec i = reconciled (d ! i) (group_decision groups dec i)"
  by (simp only: merge_line_entry[OF assms] merge_item_reconciled decision_for_group_decision)

lemma reconciled_default: "reconciled e None = default_contribution e"
  by (cases "etype e") (simp_all add: reconciled_def default_contribution_def)

lemma group_decision_empty: "group_decision groups Map.empty i = None"
  by (simp add: group_decision_def split: option.splits)

lemma group_decision_member:
  assumes "g \<in> set groups" "i \<in> set (lines g)"
    and "\<forall>g' \<in> set groups. i \<in> set (lines g') \<longrightarrow> group_id g' = group_id g"
  shows "group_decision groups dec i = dec (group_id g)"
proof (cases "find (\<lambda>g. i \<in> set (lines g)) groups")
  case None
  then show ?thesis using assms(1,2) by (simp add: find_None_iff)
next
  case (Some g0)
  then have "g0 \<in> set groups" "i \<in> set (lines g0)"
    by (auto simp: find_Some_iff)
  then have "group_id g0 = group_id g" using assms(3) by simp
  then show ?thesis by (simp add: group_decision_def Some)
qed

lemma generateMergedCSS_lines:
  "generateMergedCSS (Some r) groups dec =
     newline_joined (concat (map (\<lambda>i. reconciled (result_diff r ! i) (group_decision groups dec i))
        [0..<length (result_diff r)]))"
proof -
  have "map (merge_line (result_diff r) groups dec) [0..<length (result_diff r)]
      = map (\<lambda>i. reconciled (result_diff r ! i) (group_decision groups dec i))
          [0..<length (result_diff r)]"
    by (rule nth_equalityI) (simp_all add: merge_line_reconciled)
  then show ?thesis
    by (simp only: generateMergedCSS_def option.case join_lines_newline_joined
          merged_lines_concat)
qed

lemma generateMergedCSS_default:
  "generateMergedCSS (Some r) groups Map.empty =
     newline_joined (concat (map default_contribution (result_diff r)))"
proof -
  have "map (\<lambda>i. reconciled (result_diff r ! i) (group_decision groups Map.empty i))
          [0..<length (result_diff r)] = map default_contribution (result_diff r)"
    by (rule nth_equalityI) (simp_all add: group_decision_empty reconciled_default)
  then show ?thesis by (simp only: generateMergedCSS_lines)
qed

text \<open>
  Claim C2. With an empty decision map the output of \<open>generateMergedCSS\<close> is the
  newline-joined sequence of the default contributions of the entries: the right content
  of a modified entry, the right content of an added entry, nothing for a removed entry
  and the content of an unchanged entry. With any decision map the output is the
  newline-joined sequence of what the specification lets each entry contribute under the
  decision of its group; for a removed entry that is a member of a group, and only of
  groups of that id, this is its left content when the decision recorded for the group is
  restore, original or both, and nothing otherwise.
\<close>

theorem generateMergedCSS_decision_law:
  "generateMergedCSS (Some r) groups Map.empty =
     newline_joined (concat (map default_contribution (result_diff r))) \<and>
   generateMergedCSS (Some r) groups dec =
     newline_joined (concat (map (\<lambda>i. reconciled (result_diff r ! i) (group_decision groups dec i))
        [0..<length (result_diff r)])) \<and>
   (\<forall>i < length (result_diff r). \<forall>g \<in> set groups.
      etype (result_diff r ! i) = Removed \<longrightarrow> i \<in> set (lines g) \<longrightarrow>
      (\<forall>g' \<in> set groups. i \<in> set (lines g') \<longrightarrow> group_id g' = group_id g) \<longrightarrow>
      reconciled (result_diff r ! i) (group_decision groups dec i) =
        (if dec (group_id g) = Some D_restore \<or> dec (group_id g) = Some D_original \<or>
            dec (group_id g) = Some D_both
         then [leftContent (result_diff r ! i)] else []))"
proof (intro conjI allI ballI impI)
  show "generateMergedCSS (Some r) groups Map.empty =
     newline_joined (concat (map default_contribution (result_diff r)))"
    by (rule generateMergedCSS_default)
next
  show "generateMergedCSS (Some r) groups dec =
     newline_joined (concat (map (\<lambda>i. reconciled (result_diff r ! i) (group_decision groups dec i))
        [0..<length (result_diff r)]))"
    by (rule generateMergedCSS_lines)
next
  fix i g
  assume g: "g \<in> set groups" "i \<in> set (lines g)"
     "\<forall>g' \<in> set groups. i \<in> set (lines g') \<longrightarrow> group_id g' = group_id g"
    and e: "etype (result_diff r ! i) = Removed"
  show "reconciled (result_diff r ! i) (group_decision groups dec i) =
        (if dec (group_id g) = Some D_restore \<or> dec (group_id g) = Some D_original \<or>
            dec (group_id g) = Some D_both
         then [leftContent (result_diff r ! i)] else [])"
    by (simp add: group_decision_member[OF g] reconciled_def e)
qed

text \<open>
  A diff with one entry of each kind, the removed line in group 0, the added line in
  group 1 and the modified line in group 2: with no decision the output is the three lines
  a, x, d; with the decision to restore group 0 the removed line b is emitted as well.
\<close>

theorem generateMergedCSS_decision_law_witness:
  "generateMergedCSS
      (Some \<lparr>result_diff =
          [\<lparr>etype = Unchanged, leftLine = Some 1, rightLine = Some 1,
             leftContent = Some (js ''a''), rightContent = Some (js ''a''), similarity = None\<rparr>,
           \<lparr>etype = Removed, leftLine = Some 2, rightLine = None,
             leftContent = Some (js ''b''), rightContent = None, similarity = None\<rparr>,
           \<lparr>etype = Added, leftLine = None, rightLine = Some 2,
             leftContent = None, rightContent = Some (js ''x''), similarity = None\<rparr>,
           \<lparr>etype = Modified, leftLine = Some 3, rightLine = Some 3,
             leftContent = Some (js ''c''), rightContent = Some (js ''d''),
             similarity = Some (1 / 2)\<rparr>],
        stats = \<lparr>stat_added = 1, stat_removed = 1, stat_modified = 1, stat_unchanged = 1,
          totalOriginal = 3, totalModified = 3\<rparr>\<rparr>)
      [\<lparr>group_id = 0, startIndex = 1, endIndex = 1, lines = [1], diffIndices = [1],
         group_type = Removed\<rparr>,
       \<lparr>group_id = 1, startIndex = 2, endIndex = 2, lines = [2], diffIndices = [2],
         group_type = Added\<rparr>,
       \<lparr>group_id = 2, startIndex = 3, endIndex = 3, lines = [3], diffIndices = [3],
         group_type = Modified\<rparr>]
      Map.empty
    = js ''a'' @ [0x0A] @ js ''x'' @ [0x0A] @ js ''d'' \<and>
   generateMergedCSS
      (Some \<lparr>result_diff =
          [\<lparr>etype = Unchanged, leftLine = Some 1, rightLine = Some 1,
             leftContent = Some (js ''a''), rightContent = Some (js ''a''), similarity = None\<rparr>,
           \<lparr>etype = Removed, leftLine = Some 2, rightLine = None,
             leftContent = Some (js ''b''), rightContent = None, similarity = None\<rparr>,
           \<lparr>etype = Added, leftLine = None, rightLine = Some 2,
             leftContent = None, rightContent = Some (js ''x''), similarity = None\<rparr>,
           \<lparr>etype = Modified, leftLine = Some 3, rightLine = Some 3,
             leftContent = Some (js ''c''), rightContent = Some (js ''d''),
             similarity = Some (1 / 2)\<rparr>],
        stats = \<lparr>stat_added = 1, stat_removed = 1, stat_modified = 1, stat_unchanged = 1,
          totalOriginal = 3, totalModified = 3\<rparr>\<rparr>)
      [\<lparr>group_id = 0, startIndex = 1, endIndex = 1, lines = [1], diffIndices = [1],
         group_type = Removed\<rparr>,
       \<lparr>group_id = 1, startIndex = 2, endIndex = 2, lines = [2], diffIndices = [2],
         group_type = Added\<rparr>,
       \<lparr>group_id = 2, startIndex = 3, endIndex = 3, lines = [3], diffIndices = [3],
         group_type = Modified\<rparr>]
      (Map.empty(0 \<mapsto> D_restore))
    = js ''a'' @ [0x0A] @ js ''b'' @ [0x0A] @ js ''x'' @ [0x0A] @ js ''d''"
proof -
  let ?D = "[\<lparr>etype = Unchanged, leftLine = Some 1, rightLine = Some 1,
             leftContent = Some (js ''a''), rightContent = Some (js ''a''), similarity = None\<rparr>,
           \<lparr>etype = Removed, leftLine = Some 2, rightLine = None,
             leftContent = Some (js ''b''), rightContent = None, similarity = None\<rparr>,
           \<lparr>etype = Added, leftLine = None, rightLine = Some 2,
             leftContent = None, rightContent = Some (js ''x''), similarity = None\<rparr>,
           \<lparr>etype = Modified, leftLine = Some 3, rightLine = Some 3,
             leftContent = Some (js ''c''), rightContent = Some (js ''d''),
             similarity = Some (1 / 2)\<rparr>]"
  let ?R = "\<lparr>result_diff = ?D,
        stats = \<lparr>stat_added = 1, stat_removed = 1, stat_modified = 1, stat_unchanged = 1,
          totalOriginal = 3, totalModified = 3\<rparr>\<rparr>"
  let ?g = "\<lparr>group_id = 0, startIndex = 1, endIndex = 1, lines = [1], diffIndices = [1],
         group_type = Removed\<rparr>"
  let ?G = "[?g,
       \<lparr>group_id = 1, startIndex = 2, endIndex = 2, lines = [2], diffIndices = [2],
         group_type = Added\<rparr>,
       \<lparr>group_id = 2, startIndex = 3, endIndex = 3, lines = [3], diffIndices = [3],
         group_type = Modified\<rparr>]"
  let ?dec = "Map.empty(0 \<mapsto> D_restore) :: nat \<rightharpoonup> decision"
  note law = generateMergedCSS_decision_law[of ?R ?G ?dec]
  have 1: "generateMergedCSS (Some ?R) ?G Map.empty =
      newline_joined (concat (map default_contribution (result_diff ?R)))"
    using law by (rule conjunct1)
  have "generateMergedCSS (Some ?R) ?G ?dec =
      newline_joined (concat (map (\<lambda>i. reconciled (result_diff ?R ! i) (group_decision ?G ?dec i))
        [0..<length (result_diff ?R)]))"
    using law by blast
  then have 2: "generateMergedCSS (Some ?R) ?G ?dec =
      newline_joined (concat (map (\<lambda>i. reconciled (?D ! i) (group_decision ?G ?dec i))
        [0..<length ?D]))"
    by (simp only: DiffResult.select_convs)
  have "1 < length (result_diff ?R) \<longrightarrow> ?g \<in> set ?G \<longrightarrow>
      etype (result_diff ?R ! 1) = Removed \<longrightarrow> 1 \<in> set (lines ?g) \<longrightarrow>
      (\<forall>g' \<in> set ?G. 1 \<in> set (lines g') \<longrightarrow> group_id g' = group_id ?g) \<longrightarrow>
      reconciled (result_diff ?R ! 1) (group_decision ?G ?dec 1) =
        (if ?dec (group_id ?g) = Some D_restore \<or> ?dec (group_id ?g) = Some D_original \<or>
            ?dec (group_id ?g) = Some D_both
         then [leftContent (result_diff ?R ! 1)] else [])"
    using law by blast
  then have "reconciled (result_diff ?R ! 1) (group_decision ?G ?dec 1) = [Some (js ''b'')]"
    by simp
  then have r1: "reconciled (?D ! 1) (group_decision ?G ?dec 1) = [Some (js ''b'')]"
    by (simp only: DiffResult.select_convs)
  have r0: "reconciled (?D ! 0) (group_decision ?G ?dec 0) = [Some (js ''a'')]"
    by (simp add: reconciled_def)
  have r2: "reconciled (?D ! 2) (group_decision ?G ?dec 2) = [Some (js ''x'')]"
    by (simp add: reconciled_def group_decision_def)
  have r3: "reconciled (?D ! 3) (group_decision ?G ?dec 3) = [Some (js ''d'')]"
    by (simp add: reconciled_def group_decision_def)
  have m: "map f [0..<length ?D] = [f 0, f 1, f 2, f 3]" for f :: "nat \<Rightarrow> jsstr option list"
    by (simp add: upt_rec numeral_2_eq_2 numeral_3_eq_3)
  have a: "generateMergedCSS (Some ?R) ?G Map.empty = js ''a'' @ [0x0A] @ js ''x'' @ [0x0A] @ js ''d''"
    unfolding 1 by (simp add: default_contribution_def line_text_def)
  have "generateMergedCSS (Some ?R) ?G ?dec =
      newline_joined (concat [[Some (js ''a'')], [Some (js ''b'')], [Some (js ''x'')],
        [Some (js ''d'')]])"
    by (simp only: 2 m r0 r1 r2 r3)
  then have b: "generateMergedCSS (Some ?R) ?G ?dec =
      js ''a'' @ [0x0A] @ js ''b'' @ [0x0A] @ js ''x'' @ [0x0A] @ js ''d''"
    by (simp add: line_text_def)
  show ?thesis using a b by (rule conjI)
qed

subsection \<open>Counting changes in a diff tree\<close>

lemma count_traverse_leaves:
  "count_added (count_traverse n c) = count_added c + leaf_count Added n \<and>
   count_removed (count_traverse n c) = count_removed c + leaf_count Removed n \<and>
   count_modified (count_traverse n c) = count_modified c + leaf_count Modified n"
proof (induction n c rule: count_traverse.induct)
  case (1 k i t p ov nv ot nt vt ch hc counts)
  show ?case
  proof (cases ch)
    case None
    then show ?thesis by (simp add: leaf_count_def)
  next
    case (Some cs)
    define c1 where "c1 = (if t = Added \<and> ch = None then counts\<lparr>count_added := count_added counts + 1\<rparr>
         else if t = Removed \<and> ch = None then counts\<lparr>count_removed := count_removed counts + 1\<rparr>
         else if t = Modified \<and> ch = None then counts\<lparr>count_modified := count_modified counts + 1\<rparr>
         else counts)"
    have c1: "c1 = counts" using Some by (simp add: c1_def)
    have IH: "\<And>x c. x \<in> set cs \<Longrightarrow>
       count_added (count_traverse x c) = count_added c + leaf_count Added x \<and>
       count_removed (count_traverse x c) = count_removed c + leaf_count Removed x \<and>
       count_modified (count_traverse x c) = count_modified c + leaf_count Modified x"
      using "1.IH"[OF c1_def Some] by simp
    have f: "count_added (fold count_traverse ys c) = count_added c + sum_list (map (leaf_count Added) ys) \<and>
       count_removed (fold count_traverse ys c) = count_removed c + sum_list (map (leaf_count Removed) ys) \<and>
       count_modified (fold count_traverse ys c) = count_modified c + sum_list (map (leaf_count Modified) ys)"
      if "set ys \<subseteq> set cs" for ys c
      using that
    proof (induction ys arbitrary: c)
      case Nil
      then show ?case by simp
    next
      case (Cons y ys)
      then have "y \<in> set cs" "set ys \<subseteq> set cs" by auto
      from IH[OF this(1), of c] Cons.IH[OF this(2), of "count_traverse y c"]
      show ?case by simp
    qed
    have l: "leaf_count kd (DiffNode k i t p ov nv ot nt vt (Some cs) hc)
        = sum_list (map (leaf_count kd) cs)" for kd
      unfolding leaf_count_def by (simp add: length_concat filter_concat comp_def)
    show ?thesis using f[of cs counts] Some by (simp add: l)
  qed
qed

text \<open>
  The summary \<open>countChanges\<close> keeps three counters, for the kinds added, removed and
  modified: each is the number of nodes of that kind whose \<open>children\<close> is null.
\<close>

lemma countChanges_three_counters:
  "countChanges (Some n) =
     \<lparr>count_added = leaf_count Added n, count_removed = leaf_count Removed n,
      count_modified = leaf_count Modified n\<rparr> \<and>
   countChanges (None :: 'n DiffNode option) =
     \<lparr>count_added = 0, count_removed = 0, count_modified = 0\<rparr>"
  using count_traverse_leaves[of n "\<lparr>count_added = 0, count_removed = 0, count_modified = 0\<rparr>"]
  by (simp add: countChanges_def)





subsection \<open>The diff tree of a value against itself\<close>

lemma all_nodes_with_key:
  "\<forall>x \<in> set (all_nodes c). quiet_node x \<Longrightarrow> \<forall>x \<in> set (all_nodes (with_key k i c)). quiet_node x"
  by (cases c) (auto simp: with_key_def quiet_node_def)

lemma ntype_with_key: "ntype (with_key k i c) = ntype c"
  by (simp add: with_key_def)

lemma quiet_root: "\<forall>x \<in> set (all_nodes c). quiet_node x \<Longrightarrow> ntype c = Unchanged"
  by (cases c) (auto simp: quiet_node_def)

lemma quiet_container:
  assumes "\<forall>c \<in> set cs. \<forall>x \<in> set (all_nodes c). quiet_node x"
    and "vt = T_object \<or> vt = T_array"
  shows "\<forall>x \<in> set (all_nodes
           (DiffNode None None (if list_ex (\<lambda>child. ntype child \<noteq> Unchanged) cs then Modified else Unchanged)
              p ov nv None None vt (Some cs) (Some (list_ex (\<lambda>child. ntype child \<noteq> Unchanged) cs)))).
         quiet_node x"
proof -
  have "ntype c = Unchanged" if "c \<in> set cs" for c
    using assms(1) that quiet_root[of c] by blast
  then have "\<not> list_ex (\<lambda>child. ntype child \<noteq> Unchanged) cs"
    by (simp add: list_ex_iff)
  then show ?thesis using assms by (auto simp: quiet_node_def)
qed

lemma in_concat_option_case:
  assumes "c \<in> set (concat (map (\<lambda>k. case f k of None \<Rightarrow> [] | Some child \<Rightarrow> [g k child]) ks))"
  shows "\<exists>k child. k \<in> set ks \<and> f k = Some child \<and> c = g k child"
proof -
  from assms obtain k where k: "k \<in> set ks"
    and c: "c \<in> set (case f k of None \<Rightarrow> [] | Some child \<Rightarrow> [g k child])"
    by auto
  then show ?thesis by (cases "f k") auto
qed

lemma compare_equal_quiet:
  fixes oldVal newVal :: "'n json option"
    and oldObj newObj :: "(jsstr \<times> 'n json) list"
    and oldArr newArr :: "'n json list"
  shows
  "(oldVal = newVal \<longrightarrow>
      (case compareJSON oldVal newVal p of
         None \<Rightarrow> oldVal = None
       | Some n \<Rightarrow> oldVal \<noteq> None \<and> (\<forall>x \<in> set (all_nodes n). quiet_node x)))"
  and "(oldObj = newObj \<longrightarrow> (\<forall>x \<in> set (all_nodes (compareObjects oldObj newObj p1)). quiet_node x))"
  and "(oldArr = newArr \<longrightarrow> (\<forall>x \<in> set (all_nodes (compareArrays oldArr newArr p2)). quiet_node x))"
proof (induction oldVal newVal p and oldObj newObj p1 and oldArr newArr p2
       rule: compareJSON_compareObjects_compareArrays.induct)
  case (1 oldVal newVal p)
  show ?case
  proof
    assume eq: "oldVal = newVal"
    show "case compareJSON oldVal newVal p of
         None \<Rightarrow> oldVal = None
       | Some n \<Rightarrow> oldVal \<noteq> None \<and> (\<forall>x \<in> set (all_nodes n). quiet_node x)"
    proof (cases oldVal)
      case None
      then show ?thesis using eq by (subst compareJSON.simps) simp
    next
      case (Some v)
      consider (obj) "getValueType oldVal = T_object"
        | (arr) "getValueType oldVal \<noteq> T_object" "getValueType oldVal = T_array"
        | (prim) "getValueType oldVal \<noteq> T_object" "getValueType oldVal \<noteq> T_array"
        by blast
      then show ?thesis
      proof cases
        case obj
        have "\<forall>x \<in> set (all_nodes (compareObjects (object_entries oldVal) (object_entries newVal) p)). quiet_node x"
          using "1.IH"(1)[OF refl refl] Some eq obj by simp
        then show ?thesis using Some eq obj by (subst compareJSON.simps) simp
      next
        case arr
        have "\<forall>x \<in> set (all_nodes (compareArrays (array_items oldVal) (array_items newVal) p)). quiet_node x"
          using "1.IH"(2)[OF refl refl] Some eq arr by simp
        then show ?thesis using Some eq arr by (subst compareJSON.simps) simp
      next
        case prim
        then show ?thesis using Some eq
          by (subst compareJSON.simps) (simp add: quiet_node_def)
      qed
    qed
  qed
next
  case (2 oldObj newObj p)
  show ?case
  proof
    assume eq: "oldObj = newObj"
    define keys where "keys = sort (new_Set (object_keys oldObj @ object_keys newObj))"
    define cs where "cs = concat (map (\<lambda>key.
                        case compareJSON (map_of oldObj key) (map_of newObj key) (key_path p key) of
                          None \<Rightarrow> []
                        | Some child \<Rightarrow> [with_key (K_name key) None child]) keys)"
    have "\<forall>c \<in> set cs. \<forall>x \<in> set (all_nodes c). quiet_node x"
    proof
      fix c assume "c \<in> set cs"
      then obtain key child where k: "key \<in> set keys"
        and c: "compareJSON (map_of oldObj key) (map_of newObj key) (key_path p key) = Some child"
          "c = with_key (K_name key) None child"
        unfolding cs_def
        using in_concat_option_case[where c = c
          and f = "\<lambda>key. compareJSON (map_of oldObj key) (map_of newObj key) (key_path p key)"
          and g = "\<lambda>key child. with_key (K_name key) None child" and ks = keys]
        by blast
      from "2.IH"[OF refl refl, of key] k eq c(1)
      have "\<forall>x \<in> set (all_nodes child). quiet_node x" by (simp add: keys_def)
      then show "\<forall>x \<in> set (all_nodes c). quiet_node x"
        unfolding c(2) by (rule all_nodes_with_key)
    qed
    from quiet_container[OF this, of T_object p "Some (JObj oldObj)" "Some (JObj newObj)"]
    show "\<forall>x \<in> set (all_nodes (compareObjects oldObj newObj p)). quiet_node x"
      by (subst compareObjects.simps) (simp add: Let_def cs_def keys_def)
  qed
next
  case (3 oldArr newArr p)
  show ?case
  proof
    assume eq: "oldArr = newArr"
    define cs where "cs = concat (map (\<lambda>i.
                        case compareJSON (array_get oldArr i) (array_get newArr i) (index_path p i) of
                          None \<Rightarrow> []
                        | Some child \<Rightarrow> [with_key (K_index i) (Some i) child])
                      [0..<max (length oldArr) (length newArr)])"
    have "\<forall>c \<in> set cs. \<forall>x \<in> set (all_nodes c). quiet_node x"
    proof
      fix c assume "c \<in> set cs"
      then obtain i child where k: "i \<in> set [0..<max (length oldArr) (length newArr)]"
        and c: "compareJSON (array_get oldArr i) (array_get newArr i) (index_path p i) = Some child"
          "c = with_key (K_index i) (Some i) child"
        unfolding cs_def
        using in_concat_option_case[where c = c
          and f = "\<lambda>i. compareJSON (array_get oldArr i) (array_get newArr i) (index_path p i)"
          and g = "\<lambda>i child. with_key (K_index i) (Some i) child"
          and ks = "[0..<max (length oldArr) (length newArr)]"]
        by blast
      from "3.IH"[OF refl, of i] k eq c(1)
      have "\<forall>x \<in> set (all_nodes child). quiet_node x" by simp
      then show "\<forall>x \<in> set (all_nodes c). quiet_node x"
        unfolding c(2) by (rule all_nodes_with_key)
    qed
    from quiet_container[OF this, of T_array p "Some (JArr oldArr)" "Some (JArr newArr)"]
    show "\<forall>x \<in> set (all_nodes (compareArrays oldArr newArr p)). quiet_node x"
      by (subst compareArrays.simps) (simp add: Let_def cs_def)
  qed
qed

text \<open>
  Claim C5, as amended. For every JSON-compatible value \<open>v\<close>, \<open>compareJSON(v, v)\<close>
  yields a tree in which every node has kind unchanged, every object or array node has
  \<open>hasChanges\<close> false, and the leaves for primitive values carry no \<open>hasChanges\<close>
  field; so no node reports changes.
\<close>

theorem compareJSON_equal_inputs:
  "\<exists>n. compareJSON (Some v) (Some v) p = Some n \<and>
        (\<forall>x \<in> set (all_nodes n). quiet_node x)"
  using compare_equal_quiet(1)[of "Some v" "Some v" p]
  by (cases "compareJSON (Some v) (Some v) p") auto

text \<open>An object with a number and an array in it, compared with itself.\<close>

theorem compareJSON_equal_inputs_witness:
  "compareJSON (Some (JObj [(js ''a'', JNum (1::int)), (js ''b'', JArr [JNum 2])]))
      (Some (JObj [(js ''a'', JNum (1::int)), (js ''b'', JArr [JNum 2])])) []
    = Some (DiffNode None None Unchanged []
         (Some (JObj [(js ''a'', JNum (1::int)), (js ''b'', JArr [JNum 2])]))
         (Some (JObj [(js ''a'', JNum 1), (js ''b'', JArr [JNum 2])])) None None T_object
         (Some
           [DiffNode (Some (K_name (js ''a''))) None Unchanged (js ''a'') (Some (JNum 1))
              (Some (JNum 1)) None None T_number None None,
            DiffNode (Some (K_name (js ''b''))) None Unchanged (js ''b'')
              (Some (JArr [JNum 2])) (Some (JArr [JNum 2])) None None T_array
              (Some
                [DiffNode (Some (K_index 0)) (Some 0) Unchanged (js ''b[0]'') (Some (JNum 2))
                   (Some (JNum 2)) None None T_number None None])
              (Some False)])
         (Some False)) \<and>
   quiet_node (DiffNode None None Unchanged []
         (Some (JObj [(js ''a'', JNum (1::int)), (js ''b'', JArr [JNum 2])]))
         (Some (JObj [(js ''a'', JNum 1), (js ''b'', JArr [JNum 2])])) None None T_object
         (Some
           [DiffNode (Some (K_name (js ''a''))) None Unchanged (js ''a'') (Some (JNum 1))
              (Some (JNum 1)) None None T_number None None,
            DiffNode (Some (K_name (js ''b''))) None Unchanged (js ''b'')
              (Some (JArr [JNum 2])) (Some (JArr [JNum 2])) None None T_array
              (Some
                [DiffNode (Some (K_index 0)) (Some 0) Unchanged (js ''b[0]'') (Some (JNum 2))
                   (Some (JNum 2)) None None T_number None None])
              (Some False)])
         (Some False)) \<and>
   quiet_node (DiffNode (Some (K_name (js ''a''))) None Unchanged (js ''a'') (Some (JNum (1::int)))
         (Some (JNum 1)) None None T_number None None)"
proof -
  let ?V = "(JObj [(js ''a'', JNum (1::int)), (js ''b'', JArr [JNum 2])])"
  let ?N = "(DiffNode None None Unchanged []
         (Some (JObj [(js ''a'', JNum (1::int)), (js ''b'', JArr [JNum 2])]))
         (Some (JObj [(js ''a'', JNum 1), (js ''b'', JArr [JNum 2])])) None None T_object
         (Some
           [DiffNode (Some (K_name (js ''a''))) None Unchanged (js ''a'') (Some (JNum 1))
              (Some (JNum 1)) None None T_number None None,
            DiffNode (Some (K_name (js ''b''))) None Unchanged (js ''b'')
              (Some (JArr [JNum 2])) (Some (JArr [JNum 2])) None None T_array
              (Some
                [DiffNode (Some (K_index 0)) (Some 0) Unchanged (js ''b[0]'') (Some (JNum 2))
                   (Some (JNum 2)) None None T_number None None])
              (Some False)])
         (Some False))"
  let ?L = "(DiffNode (Some (K_name (js ''a''))) None Unchanged (js ''a'') (Some (JNum (1::int)))
         (Some (JNum 1)) None None T_number None None)"
  have ev: "compareJSON (Some ?V) (Some ?V) [] = Some ?N" by code_simp
  from compareJSON_equal_inputs[of ?V "[]"] ev
  have q: "\<forall>x \<in> set (all_nodes ?N). quiet_node x" by simp
  have "?N \<in> set (all_nodes ?N)" "?L \<in> set (all_nodes ?N)" by simp_all
  with q have "quiet_node ?N" "quiet_node ?L" by blast+
  with ev show ?thesis by blast
qed

text \<open>
  Claim C5 as stated asks for \<open>hasChanges === false\<close> at every node. The tree of a
  number compared with itself is one leaf, and that leaf has no \<open>hasChanges\<close> field.
\<close>

theorem compareJSON_leaf_hasChanges_counterexample:
  "compareJSON (Some (JNum (1::int))) (Some (JNum 1)) []
    = Some (DiffNode None None Unchanged [] (Some (JNum 1)) (Some (JNum 1)) None None
         T_number None None) \<and>
   hasChanges (DiffNode None None Unchanged [] (Some (JNum (1::int))) (Some (JNum 1)) None None
         T_number None None) \<noteq> Some False"
  by code_simp

subsection \<open>The greedy matching of a removed and an added block\<close>

lemma top_similarity_Nil: "top_similarity S [] a = a"
  by (simp add: top_similarity_def)

lemma top_similarity_Cons:
  "top_similarity S ((i, j) # ps) a = top_similarity S ps (max (S ! i ! j) a)"
  by (simp add: top_similarity_def)

lemma top_similarity_ge: "a \<le> top_similarity S ps a"
proof (induction ps arbitrary: a)
  case Nil
  then show ?case by (simp add: top_similarity_Nil)
next
  case (Cons p ps)
  obtain i j where p: "p = (i, j)" by (cases p)
  have "a \<le> max (S ! i ! j) a" by simp
  also have "\<dots> \<le> top_similarity S ps (max (S ! i ! j) a)" by (rule Cons.IH)
  finally show ?case by (simp add: p top_similarity_Cons)
qed

lemma pick_Cons:
  "pick S (i, j) (bi, bj, br) = (if S ! i ! j > br then (int i, int j, S ! i ! j) else (bi, bj, br))"
  by (simp add: pick_def)

lemma fold_pick_top:
  "snd (snd (fold (pick S) ps (bi, bj, br))) = top_similarity S ps br"
proof (induction ps arbitrary: bi bj br)
  case Nil
  then show ?case by (simp add: top_similarity_Nil)
next
  case (Cons p ps)
  obtain i j where p: "p = (i, j)" by (cases p)
  show ?case
  proof (cases "S ! i ! j > br")
    case True
    then have "max (S ! i ! j) br = S ! i ! j" by simp
    then show ?thesis using True Cons.IH[of "int i" "int j" "S ! i ! j"]
      by (simp add: p pick_Cons top_similarity_Cons)
  next
    case False
    then have "max (S ! i ! j) br = br" by simp
    then show ?thesis using False Cons.IH[of bi bj br]
      by (simp add: p pick_Cons top_similarity_Cons)
  qed
qed

lemma fold_pick_stay:
  assumes "top_similarity S ps br = br"
  shows "fold (pick S) ps (bi, bj, br) = (bi, bj, br)"
  using assms
proof (induction ps)
  case Nil
  then show ?case by simp
next
  case (Cons p ps)
  obtain i j where p: "p = (i, j)" by (cases p)
  have le: "max (S ! i ! j) br \<le> top_similarity S ps (max (S ! i ! j) br)"
    by (rule top_similarity_ge)
  with Cons.prems have "max (S ! i ! j) br \<le> br" by (simp add: p top_similarity_Cons)
  then have m: "max (S ! i ! j) br = br" and n: "\<not> S ! i ! j > br" by auto
  from Cons.prems have "top_similarity S ps br = br" by (simp add: p top_similarity_Cons m)
  from Cons.IH[OF this] n show ?case by (simp add: p pick_Cons)
qed

lemma fold_pick_first:
  assumes "br < top_similarity S ps br"
  shows "\<exists>i j. find (\<lambda>(i, j). S ! i ! j = top_similarity S ps br) ps = Some (i, j) \<and>
         fold (pick S) ps (bi, bj, br) = (int i, int j, S ! i ! j)"
  using assms
proof (induction ps arbitrary: bi bj br)
  case Nil
  then show ?case by (simp add: top_similarity_Nil)
next
  case (Cons p ps)
  obtain i j where p: "p = (i, j)" by (cases p)
  let ?v = "S ! i ! j"
  show ?case
  proof (cases "?v > br")
    case True
    then have m: "max ?v br = ?v" by simp
    have top: "top_similarity S (p # ps) br = top_similarity S ps ?v"
      by (simp add: p top_similarity_Cons m)
    have step: "fold (pick S) (p # ps) (bi, bj, br) = fold (pick S) ps (int i, int j, ?v)"
      using True by (simp add: p pick_Cons)
    show ?thesis
    proof (cases "?v < top_similarity S ps ?v")
      case True
      from Cons.IH[OF True, of "int i" "int j"]
      obtain i' j' where f: "find (\<lambda>(i, j). S ! i ! j = top_similarity S ps ?v) ps = Some (i', j')"
        and r: "fold (pick S) ps (int i, int j, ?v) = (int i', int j', S ! i' ! j')"
        by auto
      have "find (\<lambda>(i, j). S ! i ! j = top_similarity S ps ?v) (p # ps) = Some (i', j')"
        using True f by (simp add: p)
      then show ?thesis unfolding top step using r by blast
    next
      case False
      then have eq: "top_similarity S ps ?v = ?v"
        using top_similarity_ge[of ?v S ps] by simp
      have "find (\<lambda>(i, j). S ! i ! j = top_similarity S ps ?v) (p # ps) = Some (i, j)"
        by (simp add: p eq)
      moreover have "fold (pick S) ps (int i, int j, ?v) = (int i, int j, ?v)"
        using eq by (rule fold_pick_stay)
      ultimately show ?thesis unfolding top step by blast
    qed
  next
    case False
    then have m: "max ?v br = br" by simp
    have top: "top_similarity S (p # ps) br = top_similarity S ps br"
      by (simp add: p top_similarity_Cons m)
    have step: "fold (pick S) (p # ps) (bi, bj, br) = fold (pick S) ps (bi, bj, br)"
      using False by (simp add: p pick_Cons)
    from Cons.prems have lt: "br < top_similarity S ps br" unfolding top .
    from Cons.IH[OF lt, of bi bj] obtain i' j' where
      f: "find (\<lambda>(i, j). S ! i ! j = top_similarity S ps br) ps = Some (i', j')"
      and r: "fold (pick S) ps (bi, bj, br) = (int i', int j', S ! i' ! j')" by auto
    have "?v \<noteq> top_similarity S ps br" using False lt by auto
    then have "find (\<lambda>(i, j). S ! i ! j = top_similarity S ps br) (p # ps) = Some (i', j')"
      using f by (simp add: p)
    then show ?thesis unfolding top step using r by blast
  qed
qed

lemma scan_best_spec:
  "(case best_remaining S (remaining_pairs nr na uR uA) of
      None \<Rightarrow> scan_best S nr na uR uA = (- 1, - 1, 0)
    | Some (i, j) \<Rightarrow> scan_best S nr na uR uA = (int i, int j, S ! i ! j) \<and> 0 < S ! i ! j)"
proof -
  let ?ps = "remaining_pairs nr na uR uA"
  let ?top = "top_similarity S ?ps 0"
  show ?thesis
  proof (cases "0 < ?top")
    case True
    from fold_pick_first[OF True, of "- 1" "- 1"]
    obtain i j where f: "find (\<lambda>(i, j). S ! i ! j = ?top) ?ps = Some (i, j)"
      and r: "fold (pick S) ?ps (- 1, - 1, 0) = (int i, int j, S ! i ! j)" by auto
    have "snd (snd (fold (pick S) ?ps (- 1, - 1, 0))) = ?top"
      by (rule fold_pick_top)
    with r have v: "S ! i ! j = ?top" by simp
    have b: "best_remaining S ?ps = Some (i, j)"
      using True f by (simp add: best_remaining_def)
    show ?thesis unfolding b using r v True by (simp add: scan_best_eq)
  next
    case False
    then have top: "?top = 0" using top_similarity_ge[of 0 S ?ps] by simp
    have b: "best_remaining S ?ps = None"
      using False by (simp add: best_remaining_def)
    show ?thesis unfolding b using fold_pick_stay[OF top] by (simp add: scan_best_eq)
  qed
qed

lemma best_remaining_Nil: "best_remaining S [] = None"
  by (simp add: best_remaining_def top_similarity_Nil)

lemma best_remaining_mem:
  assumes "best_remaining S ps = Some p"
  shows "p \<in> set ps"
proof -
  from assms have "find (\<lambda>(i, j). S ! i ! j = top_similarity S ps 0) ps = Some p"
    by (simp add: best_remaining_def Let_def split: if_splits)
  then obtain k where "k < length ps" "ps ! k = p" unfolding find_Some_iff by blast
  then show ?thesis using nth_mem by blast
qed

lemma used_full:
  assumes "distinct u" "set u \<subseteq> int ` {..<n}" "n \<le> length u"
  shows "set u = int ` {..<n}"
proof (rule card_seteq)
  show "finite (int ` {..<n})" by simp
  show "set u \<subseteq> int ` {..<n}" by (rule assms(2))
  have "card (int ` {..<n}) = n" by (simp add: card_image)
  also have "\<dots> \<le> card (set u)" using assms(1,3) by (simp add: distinct_card)
  finally show "card (int ` {..<n}) \<le> card (set u)" .
qed

lemma remaining_pairs_rows_used:
  "set uR = int ` {..<nr} \<Longrightarrow> remaining_pairs nr na uR uA = []"
  by (auto simp: remaining_pairs_def)

lemma remaining_pairs_cols_used:
  assumes "set uA = int ` {..<na}"
  shows "remaining_pairs nr na uR uA = []"
proof -
  have "filter (\<lambda>j. int j \<notin> set uA) [0..<na] = []"
    using assms by (auto simp: filter_empty_conv)
  then show ?thesis by (auto simp: remaining_pairs_def)
qed

lemma greedy_loop_spec:
  assumes "distinct uR" "set uR \<subseteq> int ` {..<length rb}"
    and "distinct uA" "set uA \<subseteq> int ` {..<length ab}"
  shows "\<exists>ms'. greedy_matching S (length rb) (length ab) uR uA ms' \<and>
           greedy_loop rb ab S ms uR uA = ms @ map (mk_match rb ab) ms'"
  using assms
proof (induction rb ab S ms uR uA rule: greedy_loop.induct)
  case (1 rb ab S ms uR uA)
  let ?ps = "remaining_pairs (length rb) (length ab) uR uA"
  show ?case
  proof (cases "length uR < length rb \<and> length uA < length ab")
    case False
    then have "?ps = []"
      using used_full[OF "1.prems"(1,2)] used_full[OF "1.prems"(3,4)]
        remaining_pairs_rows_used[of uR "length rb" "length ab" uA]
        remaining_pairs_cols_used[of uA "length ab" "length rb" uR]
      by (cases "length uR < length rb") auto
    then have "greedy_matching S (length rb) (length ab) uR uA []"
      by (simp add: best_remaining_Nil)
    moreover have "greedy_loop rb ab S ms uR uA = ms"
      using False by (subst greedy_loop.simps) auto
    ultimately show ?thesis by (intro exI[of _ "[]"]) simp
  next
    case True
    show ?thesis
    proof (cases "best_remaining S ?ps")
      case None
      with scan_best_spec[of S "length rb" "length ab" uR uA]
      have sb: "scan_best S (length rb) (length ab) uR uA = (- 1, - 1, 0)" by simp
      have "greedy_loop rb ab S ms uR uA = ms"
        by (subst greedy_loop.simps) (simp add: sb)
      moreover have "greedy_matching S (length rb) (length ab) uR uA []"
        using None by simp
      ultimately show ?thesis by (intro exI[of _ "[]"]) simp
    next
      case (Some p)
      obtain i j where p: "p = (i, j)" by (cases p)
      from scan_best_spec[of S "length rb" "length ab" uR uA] Some p
      have sb: "scan_best S (length rb) (length ab) uR uA = (int i, int j, S ! i ! j)"
        and pos: "0 < S ! i ! j" by simp_all
      from best_remaining_mem[OF Some] p
      have mem: "i < length rb" "j < length ab" "int i \<notin> set uR" "int j \<notin> set uA"
        by (simp_all add: set_remaining_pairs)
      have add: "set_add uR (int i) = uR @ [int i]" "set_add uA (int j) = uA @ [int j]"
        using mem by (simp_all add: set_add_def)
      have inv: "distinct (uR @ [int i])" "set (uR @ [int i]) \<subseteq> int ` {..<length rb}"
        "distinct (uA @ [int j])" "set (uA @ [int j]) \<subseteq> int ` {..<length ab}"
        using "1.prems" mem by auto
      from "1.IH"[OF True sb[symmetric] refl pos] inv[folded add]
      obtain ms' where g: "greedy_matching S (length rb) (length ab) (uR @ [int i]) (uA @ [int j]) ms'"
        and l: "greedy_loop rb ab S
                  (ms @ [\<lparr>removedIdx = int i, addedIdx = int j, removed = rb ! nat (int i),
                           added = ab ! nat (int j), ratio = S ! i ! j\<rparr>])
                  (set_add uR (int i)) (set_add uA (int j))
                = (ms @ [\<lparr>removedIdx = int i, addedIdx = int j, removed = rb ! nat (int i),
                           added = ab ! nat (int j), ratio = S ! i ! j\<rparr>]) @ map (mk_match rb ab) ms'"
        unfolding add by blast
      have "greedy_loop rb ab S ms uR uA
            = ms @ map (mk_match rb ab) ((i, j, S ! i ! j) # ms')"
        using True pos l by (subst greedy_loop.simps) (simp add: sb mk_match_def)
      moreover have "greedy_matching S (length rb) (length ab) uR uA ((i, j, S ! i ! j) # ms')"
        using Some p g by simp
      ultimately show ?thesis by blast
    qed
  qed
qed

lemma greedy_matching_unique:
  "greedy_matching S nr na uR uA ms \<Longrightarrow> greedy_matching S nr na uR uA ms' \<Longrightarrow> ms = ms'"
proof (induction ms arbitrary: ms' uR uA)
  case Nil
  then show ?case by (cases ms') auto
next
  case (Cons m ms)
  obtain i j r where m: "m = (i, j, r)" by (cases m)
  show ?case
  proof (cases ms')
    case Nil
    with Cons.prems m show ?thesis by simp
  next
    case (Cons m' ms'')
    obtain i' j' r' where m': "m' = (i', j', r')" by (cases m')
    from Cons.prems(1,2) m m' Cons have "i = i'" "j = j'" "r = r'" by auto
    moreover from Cons.prems(1,2) m m' Cons calculation
    have "greedy_matching S nr na (uR @ [int i]) (uA @ [int j]) ms"
      "greedy_matching S nr na (uR @ [int i]) (uA @ [int j]) ms''" by auto
    from Cons.IH[OF this] have "ms = ms''" .
    ultimately show ?thesis using m m' Cons by simp
  qed
qed

lemma greedy_matching_bounds:
  "greedy_matching S nr na uR uA ms \<Longrightarrow> (i, j, r) \<in> set ms \<Longrightarrow> i < nr \<and> j < na"
proof (induction ms arbitrary: uR uA)
  case Nil
  then show ?case by simp
next
  case (Cons m ms)
  obtain i' j' r' where m: "m = (i', j', r')" by (cases m)
  from Cons.prems(1) m have b: "best_remaining S (remaining_pairs nr na uR uA) = Some (i', j')"
    and g: "greedy_matching S nr na (uR @ [int i']) (uA @ [int j']) ms" by auto
  from best_remaining_mem[OF b] have "i' < nr \<and> j' < na" by (simp add: set_remaining_pairs)
  then show ?case using Cons.prems(2) Cons.IH[OF g] m by auto
qed

lemma findBestMatches_spec:
  "\<exists>ms. greedy_matching (similarity_matrix rb ab) (length rb) (length ab) [] [] ms \<and>
        findBestMatches rb ab = map (mk_match rb ab) ms"
proof (cases "length rb = 0 \<or> length ab = 0")
  case True
  then have "remaining_pairs (length rb) (length ab) [] [] = []"
    by (auto simp: remaining_pairs_def)
  then have "greedy_matching (similarity_matrix rb ab) (length rb) (length ab) [] [] []"
    by (simp add: best_remaining_Nil)
  then show ?thesis using True by (intro exI[of _ "[]"]) (simp add: findBestMatches_def)
next
  case False
  from greedy_loop_spec[of "[]" rb "[]" ab "similarity_matrix rb ab" "[]"]
  show ?thesis using False by (simp add: findBestMatches_def)
qed

lemma set_new_Set: "set (new_Set xs) = set xs"
proof -
  have "set (fold (\<lambda>x s. set_add s x) xs acc) = set acc \<union> set xs" for acc
    by (induction xs arbitrary: acc) (auto simp: set_add_def)
  then show ?thesis by (simp add: new_Set_def)
qed

lemma insort_key_map:
  "insort_key k (g x) (map g ys) = map g (insort_key (\<lambda>a. k (g a)) x ys)"
  by (induction ys) simp_all

lemma sort_key_map: "sort_key k (map g xs) = map g (sort_key (\<lambda>a. k (g a)) xs)"
  by (induction xs) (simp_all add: insort_key_map)

lemma insort_key_int: "insort_key (\<lambda>x. int (f x)) x ys = insort_key f x ys"
  by (induction ys) simp_all

lemma sort_key_int: "sort_key (\<lambda>x. int (f x)) xs = sort_key f xs"
  by (induction xs) (simp_all add: insort_key_int)

lemma truncate_fields:
  "etype (DiffEntry.truncate x) = etype x" "leftLine (DiffEntry.truncate x) = leftLine x"
  "rightLine (DiffEntry.truncate x) = rightLine x" "leftContent (DiffEntry.truncate x) = leftContent x"
  "rightContent (DiffEntry.truncate x) = rightContent x"
  "similarity (DiffEntry.truncate x) = similarity x"
  by (simp_all add: DiffEntry.truncate_def)

lemma truncate_to_block: "DiffEntry.truncate (to_block e i) = e"
  by (simp add: DiffEntry.truncate_def to_block_def)

lemma removed_entry_truncate: "removed_entry (DiffEntry.truncate x) = removed_entry x"
  by (simp add: removed_entry_def truncate_fields)

lemma added_entry_truncate: "added_entry (DiffEntry.truncate x) = added_entry x"
  by (simp add: added_entry_def truncate_fields)

lemma similarity_matrix_truncate:
  "similarity_matrix (map DiffEntry.truncate rb) (map DiffEntry.truncate ab) = similarity_matrix rb ab"
  unfolding similarity_matrix_def
  by (auto simp: truncate_fields intro!: map_cong)

lemma match_blocks_spec:
  "\<exists>ms. greedy_matching (similarity_matrix (map DiffEntry.truncate rb) (map DiffEntry.truncate ab))
           (length rb) (length ab) [] [] ms \<and>
        match_blocks rb ab = block_output (map DiffEntry.truncate rb) (map DiffEntry.truncate ab) ms"
proof -
  let ?R = "map DiffEntry.truncate rb" and ?A = "map DiffEntry.truncate ab"
  from findBestMatches_spec[of rb ab] obtain ms where
    g: "greedy_matching (similarity_matrix rb ab) (length rb) (length ab) [] [] ms"
    and f: "findBestMatches rb ab = map (mk_match rb ab) ms" by blast
  have ri: "(\<lambda>m. removedIdx (mk_match rb ab m)) = (\<lambda>m. int (fst m))"
    and ai: "(\<lambda>m. addedIdx (mk_match rb ab m)) = (\<lambda>m. int (fst (snd m)))"
    by (auto simp: mk_match_def fun_eq_iff)
  have mr: "(int r \<notin> set (new_Set (map removedIdx (map (mk_match rb ab) ms)))) = (r \<notin> fst ` set ms)" for r
    by (auto simp: set_new_Set comp_def ri image_iff)
  have ma: "(int a \<notin> set (new_Set (map addedIdx (map (mk_match rb ab) ms)))) = (a \<notin> (fst \<circ> snd) ` set ms)" for a
    by (auto simp: set_new_Set comp_def ai image_iff)
  have p1: "map (\<lambda>r. removed_entry (rb ! r))
              (filter (\<lambda>r. int r \<notin> set (new_Set (map removedIdx (map (mk_match rb ab) ms)))) [0..<length rb])
          = map (\<lambda>i. removed_entry (?R ! i)) (filter (\<lambda>i. i \<notin> fst ` set ms) [0..<length ?R])"
    unfolding mr by (rule map_cong) (simp_all add: removed_entry_truncate)
  have p3: "map (\<lambda>a. added_entry (ab ! a))
              (filter (\<lambda>a. int a \<notin> set (new_Set (map addedIdx (map (mk_match rb ab) ms)))) [0..<length ab])
          = map (\<lambda>j. added_entry (?A ! j)) (filter (\<lambda>j. j \<notin> (fst \<circ> snd) ` set ms) [0..<length ?A])"
    unfolding ma by (rule map_cong) (simp_all add: added_entry_truncate)
  have srt: "sort_key removedIdx (map (mk_match rb ab) ms) = map (mk_match rb ab) (sort_key fst ms)"
    by (simp add: sort_key_map ri sort_key_int)
  have p2: "map modified_entry (map (mk_match rb ab) (sort_key fst ms))
          = map (\<lambda>(i, j, r).
              \<lparr>etype = Modified, leftLine = leftLine (?R ! i), rightLine = rightLine (?A ! j),
                leftContent = leftContent (?R ! i), rightContent = rightContent (?A ! j),
                similarity = Some r\<rparr>) (sort_key fst ms)"
  proof -
    have "modified_entry (mk_match rb ab m) = (case m of (i, j, r) \<Rightarrow>
              \<lparr>etype = Modified, leftLine = leftLine (?R ! i), rightLine = rightLine (?A ! j),
                leftContent = leftContent (?R ! i), rightContent = rightContent (?A ! j),
                similarity = Some r\<rparr>)" if "m \<in> set ms" for m
    proof -
      obtain i j r where m: "m = (i, j, r)" by (cases m)
      from greedy_matching_bounds[OF g] that m have "i < length rb" "j < length ab" by auto
      then show ?thesis by (simp add: m modified_entry_def mk_match_def truncate_fields)
    qed
    then show ?thesis by (simp add: comp_def)
  qed
  have "match_blocks rb ab = block_output ?R ?A ms"
    unfolding match_blocks_def Let_def f block_output_def srt p1 p2 p3 ..
  with g show ?thesis by (auto simp: similarity_matrix_truncate)
qed

lemma match_blocks_block_of:
  "match_blocks rb ab = block_of (map DiffEntry.truncate rb) (map DiffEntry.truncate ab)"
proof -
  let ?R = "map DiffEntry.truncate rb" and ?A = "map DiffEntry.truncate ab"
  let ?rb0 = "map (\<lambda>e. to_block e 0) ?R" and ?ab0 = "map (\<lambda>e. to_block e 0) ?A"
  have t: "map DiffEntry.truncate ?rb0 = ?R" "map DiffEntry.truncate ?ab0 = ?A"
    by (simp_all add: comp_def truncate_to_block)
  from match_blocks_spec[of rb ab] obtain ms where
    g: "greedy_matching (similarity_matrix ?R ?A) (length rb) (length ab) [] [] ms"
    and m: "match_blocks rb ab = block_output ?R ?A ms" by blast
  from match_blocks_spec[of ?rb0 ?ab0] obtain ms' where
    g': "greedy_matching (similarity_matrix ?R ?A) (length rb) (length ab) [] [] ms'"
    and m': "match_blocks ?rb0 ?ab0 = block_output ?R ?A ms'"
    unfolding t by auto
  from greedy_matching_unique[OF g g'] m m' show ?thesis by (simp add: block_of_def)
qed

lemma collect_block_list:
  assumes "collect_block k diff i [] = (block, i')"
  shows "map DiffEntry.truncate block = takeWhile (\<lambda>e. etype e = k) (drop i diff)"
    and "drop i' diff = dropWhile (\<lambda>e. etype e = k) (drop i diff)"
proof -
  let ?P = "\<lambda>e. etype e = k"
  let ?n = "length (takeWhile ?P (drop i diff))"
  from assms have b: "block = map (\<lambda>t. to_block (diff ! t) t) [i..<i + ?n]" and i': "i' = i + ?n"
    by (auto simp add: collect_block_eq)
  have n: "?n \<le> length (drop i diff)" by (rule length_takeWhile_le)
  have "map DiffEntry.truncate block = map (\<lambda>t. diff ! t) [i..<i + ?n]"
    unfolding b by (simp add: comp_def truncate_to_block)
  also have "\<dots> = take ?n (drop i diff)"
    using n by (intro nth_equalityI) (simp_all add: add.commute)
  also have "\<dots> = takeWhile ?P (drop i diff)"
    by (rule takeWhile_eq_take[symmetric])
  finally show "map DiffEntry.truncate block = takeWhile ?P (drop i diff)" .
  have "drop i' diff = drop ?n (drop i diff)" unfolding i' by (simp add: add.commute)
  also have "\<dots> = dropWhile ?P (drop i diff)" by (rule dropWhile_eq_drop[symmetric])
  finally show "drop i' diff = dropWhile ?P (drop i diff)" .
qed

lemma map_removed_entry_truncate:
  "map removed_entry (map DiffEntry.truncate block) = map removed_entry block"
  by (simp add: comp_def removed_entry_truncate)

lemma map_added_entry_truncate:
  "map added_entry (map DiffEntry.truncate block) = map added_entry block"
  by (simp add: comp_def added_entry_truncate)

lemma detect_loop_list:
  "detect_loop diff i result = result @ detect_list (drop i diff)"
proof (induction diff i result rule: detect_loop.induct)
  case (1 diff i result)
  show ?case
  proof (cases "i < length diff")
    case False
    then have "detect_loop diff i result = result" by (subst detect_loop.simps) simp
    moreover have "detect_list (drop i diff) = []" using False by (subst detect_list.simps) simp
    ultimately show ?thesis by simp
  next
    case True
    let ?xs = "drop i diff"
    have xs: "?xs \<noteq> []" using True by simp
    obtain rb i1 where c1: "collect_block Removed diff i [] = (rb, i1)"
      by (cases "collect_block Removed diff i []") auto
    obtain ab i2 where c2: "collect_block Added diff i1 [] = (ab, i2)"
      by (cases "collect_block Added diff i1 []") auto
    define R where "R = takeWhile (\<lambda>e. etype e = Removed) ?xs"
    define r1 where "r1 = dropWhile (\<lambda>e. etype e = Removed) ?xs"
    define A where "A = takeWhile (\<lambda>e. etype e = Added) r1"
    define r2 where "r2 = dropWhile (\<lambda>e. etype e = Added) r1"
    have R: "map DiffEntry.truncate rb = R" and d1: "drop i1 diff = r1"
      using collect_block_list[OF c1] by (simp_all add: R_def r1_def)
    have A: "map DiffEntry.truncate ab = A" and d2: "drop i2 diff = r2"
      using collect_block_list[OF c2] by (simp_all add: A_def r2_def d1)
    have lenR: "(length rb > 0) = (R \<noteq> [])" using R by auto
    have lenA: "(length ab > 0) = (A \<noteq> [])" using A by auto
    have dl: "detect_list ?xs =
       (if R \<noteq> [] \<and> A \<noteq> [] then block_of R A @ detect_list r2
           else if R \<noteq> [] then map removed_entry R @ detect_list r2
           else if A \<noteq> [] then map added_entry A @ detect_list r2
           else hd ?xs # detect_list (tl ?xs))"
      using xs by (subst detect_list.simps) (simp add: Let_def R_def r1_def A_def r2_def)
    note IH = "1.IH"[OF True c1[symmetric] c2[symmetric]]
    consider (both) "length rb > 0 \<and> length ab > 0"
      | (r) "\<not> (length rb > 0 \<and> length ab > 0)" "length rb > 0"
      | (a) "\<not> (length rb > 0 \<and> length ab > 0)" "\<not> length rb > 0" "length ab > 0"
      | (none) "\<not> (length rb > 0 \<and> length ab > 0)" "\<not> length rb > 0" "\<not> length ab > 0"
      by blast
    then show ?thesis
    proof cases
      case both
      have "detect_loop diff i result = detect_loop diff i2 (result @ match_blocks rb ab)"
        using True both by (subst detect_loop.simps) (simp add: c1 c2)
      also have "\<dots> = (result @ match_blocks rb ab) @ detect_list r2"
        using IH(1)[OF both] by (simp add: d2)
      finally show ?thesis using both
        by (simp add: dl lenR[symmetric] lenA[symmetric] match_blocks_block_of R A)
    next
      case r
      have "detect_loop diff i result = detect_loop diff i2 (result @ map removed_entry rb)"
        using True r by (subst detect_loop.simps) (simp add: c1 c2)
      also have "\<dots> = (result @ map removed_entry rb) @ detect_list r2"
        using IH(2)[OF r] by (simp add: d2)
      finally show ?thesis using r map_removed_entry_truncate[of rb]
        by (simp add: dl lenR[symmetric] lenA[symmetric] R)
    next
      case a
      have "detect_loop diff i result = detect_loop diff i2 (result @ map added_entry ab)"
        using True a by (subst detect_loop.simps) (simp add: c1 c2)
      also have "\<dots> = (result @ map added_entry ab) @ detect_list r2"
        using IH(3)[OF a] by (simp add: d2)
      finally show ?thesis using a map_added_entry_truncate[of ab]
        by (simp add: dl lenR[symmetric] lenA[symmetric] A)
    next
      case none
      then have e: "rb = []" "ab = []" by auto
      from collect_block_bounds(4)[OF c1 e(1)] collect_block_bounds(4)[OF c2 e(2)]
      have i2: "i2 = i" by simp
      have "detect_loop diff i result = detect_loop diff (i2 + 1) (result @ [diff ! i])"
        using True none by (subst detect_loop.simps) (simp add: c1 c2)
      also have "\<dots> = (result @ [diff ! i]) @ detect_list (drop (i + 1) diff)"
        using IH(4)[OF none] by (simp add: i2)
      finally show ?thesis using none True
        by (simp add: dl lenR[symmetric] lenA[symmetric] hd_drop_conv_nth drop_Suc tl_drop)
    qed
  qed
qed

lemma detect_list_Nil: "detect_list [] = []"
  by (subst detect_list.simps) simp

lemma detect_list_unfold:
  assumes "xs \<noteq> []"
  shows "detect_list xs =
     (let R = takeWhile (\<lambda>e. etype e = Removed) xs;
          r1 = dropWhile (\<lambda>e. etype e = Removed) xs;
          A = takeWhile (\<lambda>e. etype e = Added) r1;
          r2 = dropWhile (\<lambda>e. etype e = Added) r1
      in if R \<noteq> [] \<and> A \<noteq> [] then block_of R A @ detect_list r2
         else if R \<noteq> [] then map removed_entry R @ detect_list r2
         else if A \<noteq> [] then map added_entry A @ detect_list r2
         else hd xs # detect_list (tl xs))"
  using assms by (subst detect_list.simps) simp

lemma last_dropWhile:
  "dropWhile P xs \<noteq> [] \<Longrightarrow> last (dropWhile P xs) = last xs"
  by (induction xs) (auto split: if_splits)

lemma detect_list_append:
  assumes "pre = [] \<or> etype (last pre) \<noteq> Removed"
    and "rest = [] \<or> etype (hd rest) \<noteq> Added"
  shows "detect_list (pre @ rest) = detect_list pre @ detect_list rest"
  using assms(1)
proof (induction pre rule: detect_list.induct)
  case (1 pre)
  show ?case
  proof (cases "pre = []")
    case True
    then show ?thesis by (simp add: detect_list_Nil)
  next
    case False
    let ?isR = "\<lambda>e. etype e = Removed" and ?isA = "\<lambda>e. etype e = Added"
    define R where "R = takeWhile ?isR pre"
    define r1 where "r1 = dropWhile ?isR pre"
    define A where "A = takeWhile ?isA r1"
    define r2 where "r2 = dropWhile ?isA r1"
    from False "1.prems" have lastpre: "etype (last pre) \<noteq> Removed" by simp
    have ex: "last pre \<in> set pre" "\<not> ?isR (last pre)" using False lastpre by simp_all
    have tR: "takeWhile ?isR (pre @ rest) = R"
      unfolding R_def using ex by (rule takeWhile_append1)
    have dR: "dropWhile ?isR (pre @ rest) = r1 @ rest"
      unfolding r1_def using ex by (rule dropWhile_append1)
    have tA: "takeWhile ?isA (r1 @ rest) = A \<and> dropWhile ?isA (r1 @ rest) = r2 @ rest"
    proof (cases "\<exists>x \<in> set r1. \<not> ?isA x")
      case True
      then obtain x where x: "x \<in> set r1" "\<not> ?isA x" by blast
      show ?thesis unfolding A_def r2_def
        using takeWhile_append1[where P = ?isA and xs = r1 and ys = rest and x = x]
          dropWhile_append1[where P = ?isA and xs = r1 and ys = rest and x = x] x
        by simp
    next
      case False
      then have all: "\<forall>x \<in> set r1. ?isA x" by blast
      have rest0: "takeWhile ?isA rest = []" "dropWhile ?isA rest = rest"
        using assms(2) by (cases rest; simp)+
      have "A = r1" "r2 = []" using all by (simp_all add: A_def r2_def)
      then show ?thesis using all rest0
        by (simp add: takeWhile_append2 dropWhile_append2)
    qed
    have b2: "r2 = [] \<or> etype (last r2) \<noteq> Removed"
    proof (cases "r2 = []")
      case True
      then show ?thesis by simp
    next
      case False
      then have "last r2 = last r1" unfolding r2_def by (rule last_dropWhile)
      moreover have "r1 \<noteq> []" using False by (auto simp: r2_def)
      then have "last r1 = last pre" unfolding r1_def by (rule last_dropWhile)
      ultimately show ?thesis using lastpre by simp
    qed
    have bt: "tl pre = [] \<or> etype (last (tl pre)) \<noteq> Removed"
      using False lastpre by (cases pre) (auto split: if_splits)
    note IH = "1.IH"[OF False R_def r1_def A_def r2_def]
    have lhs: "detect_list (pre @ rest) =
       (if R \<noteq> [] \<and> A \<noteq> [] then block_of R A @ detect_list (r2 @ rest)
         else if R \<noteq> [] then map removed_entry R @ detect_list (r2 @ rest)
         else if A \<noteq> [] then map added_entry A @ detect_list (r2 @ rest)
         else hd pre # detect_list (tl pre @ rest))"
      using False by (subst detect_list_unfold) (simp_all add: Let_def tR dR tA)
    have rhs: "detect_list pre =
       (if R \<noteq> [] \<and> A \<noteq> [] then block_of R A @ detect_list r2
         else if R \<noteq> [] then map removed_entry R @ detect_list r2
         else if A \<noteq> [] then map added_entry A @ detect_list r2
         else hd pre # detect_list (tl pre))"
      using False by (subst detect_list_unfold) (simp_all add: Let_def R_def r1_def A_def r2_def)
    consider (both) "R \<noteq> [] \<and> A \<noteq> []"
      | (r) "\<not> (R \<noteq> [] \<and> A \<noteq> [])" "R \<noteq> []"
      | (a) "\<not> (R \<noteq> [] \<and> A \<noteq> [])" "\<not> R \<noteq> []" "A \<noteq> []"
      | (none) "\<not> (R \<noteq> [] \<and> A \<noteq> [])" "\<not> R \<noteq> []" "\<not> A \<noteq> []"
      by blast
    then show ?thesis
    proof cases
      case both
      from IH(1)[OF both b2] both show ?thesis by (simp add: lhs rhs)
    next
      case r
      from IH(2)[OF r b2] r show ?thesis by (simp add: lhs rhs)
    next
      case a
      from IH(3)[OF a b2] a show ?thesis by (simp add: lhs rhs)
    next
      case none
      from IH(4)[OF none bt] none show ?thesis by (simp add: lhs rhs)
    qed
  qed
qed

lemma detect_list_block:
  assumes "R \<noteq> []" "A \<noteq> []" "\<forall>e \<in> set R. etype e = Removed" "\<forall>e \<in> set A. etype e = Added"
    and "post = [] \<or> etype (hd post) \<noteq> Added"
  shows "detect_list (R @ A @ post) = block_of R A @ detect_list post"
proof -
  let ?isR = "\<lambda>e. etype e = Removed" and ?isA = "\<lambda>e. etype e = Added"
  have hdA: "etype (hd A) = Added" using assms(2,4) by (cases A) auto
  have t0: "takeWhile ?isR (A @ post) = []" "dropWhile ?isR (A @ post) = A @ post"
    using assms(2) hdA by (cases A; simp)+
  have tR: "takeWhile ?isR (R @ A @ post) = R" "dropWhile ?isR (R @ A @ post) = A @ post"
    using assms(3) t0 by (simp_all add: takeWhile_append2 dropWhile_append2)
  have p0: "takeWhile ?isA post = []" "dropWhile ?isA post = post"
    using assms(5) by (cases post; simp)+
  have tA: "takeWhile ?isA (A @ post) = A" "dropWhile ?isA (A @ post) = post"
    using assms(4) p0 by (simp_all add: takeWhile_append2 dropWhile_append2)
  show ?thesis
    using assms(1,2) by (subst detect_list_unfold) (simp_all add: Let_def tR tA)
qed

text \<open>
  Claim C3. Take a run of removed entries \<open>R\<close> immediately followed by a run of added
  entries \<open>A\<close>, both maximal where they sit in the script. The detector pairs them by
  the greedy matching over the similarity matrix of \<open>R\<close> and \<open>A\<close>, and what it emits
  for the block is: the unmatched removed entries in their order, then the modified
  entries of the matched pairs in the order of their removed side, then the unmatched
  added entries in their order; the entries before and after the block are processed on
  their own.
\<close>

theorem detectModifications_removed_added_block:
  assumes "R \<noteq> []" and "A \<noteq> []"
    and "\<forall>e \<in> set R. etype e = Removed" and "\<forall>e \<in> set A. etype e = Added"
    and "pre = [] \<or> etype (last pre) \<noteq> Removed"
    and "post = [] \<or> etype (hd post) \<noteq> Added"
  shows "\<exists>ms. greedy_matching (similarity_matrix R A) (length R) (length A) [] [] ms \<and>
           detectModifications (pre @ R @ A @ post)
             = detectModifications pre @ block_output R A ms @ detectModifications post"
proof -
  let ?rb = "map (\<lambda>e. to_block e 0) R" and ?ab = "map (\<lambda>e. to_block e 0) A"
  have t: "map DiffEntry.truncate ?rb = R" "map DiffEntry.truncate ?ab = A"
    by (simp_all add: comp_def truncate_to_block)
  from match_blocks_spec[of ?rb ?ab] obtain ms where
    g: "greedy_matching (similarity_matrix R A) (length R) (length A) [] [] ms"
    and m: "block_of R A = block_output R A ms"
    unfolding t block_of_def by auto
  have hdR: "etype (hd (R @ A @ post)) \<noteq> Added" using assms(1,3) by (cases R) auto
  have "detectModifications (pre @ R @ A @ post) = detect_list (pre @ (R @ A @ post))"
    by (simp add: detectModifications_def detect_loop_list)
  also have "\<dots> = detect_list pre @ detect_list (R @ A @ post)"
    using assms(5) hdR by (intro detect_list_append) simp_all
  also have "\<dots> = detect_list pre @ block_of R A @ detect_list post"
    using detect_list_block[OF assms(1,2,3,4,6)] by simp
  finally have "detectModifications (pre @ R @ A @ post)
      = detectModifications pre @ block_output R A ms @ detectModifications post"
    by (simp add: detectModifications_def detect_loop_list m)
  with g show ?thesis by blast
qed

text \<open>
  Two removed declarations followed by three added lines, between two unchanged lines:
  the margin pair (8/9) is matched before the colour pair (2/3), and the output lists the
  colour pair first, by its removed position.
\<close>

theorem detectModifications_removed_added_block_witness:
  "greedy_matching
     (similarity_matrix
        [\<lparr>etype = Removed, leftLine = Some 2, rightLine = None,
        leftContent = Some (js ''color: red;''), rightContent = None, similarity = None\<rparr>,
      \<lparr>etype = Removed, leftLine = Some 3, rightLine = None,
        leftContent = Some (js ''margin: 0''), rightContent = None, similarity = None\<rparr>]
        [\<lparr>etype = Added, leftLine = None, rightLine = Some 2,
        leftContent = None, rightContent = Some (js ''margin: 1''), similarity = None\<rparr>,
      \<lparr>etype = Added, leftLine = None, rightLine = Some 3,
        leftContent = None, rightContent = Some (js ''color: blue;''), similarity = None\<rparr>,
      \<lparr>etype = Added, leftLine = None, rightLine = Some 4,
        leftContent = None, rightContent = Some (js ''zz''), similarity = None\<rparr>])
     2 3 [] [] [(1, 0, 8 / 9), (0, 1, 2 / 3)] \<and>
   detectModifications
     ([\<lparr>etype = Unchanged, leftLine = Some 1, rightLine = Some 1,
        leftContent = Some (js ''a''), rightContent = Some (js ''a''), similarity = None\<rparr>] @
      [\<lparr>etype = Removed, leftLine = Some 2, rightLine = None,
        leftContent = Some (js ''color: red;''), rightContent = None, similarity = None\<rparr>,
      \<lparr>etype = Removed, leftLine = Some 3, rightLine = None,
        leftContent = Some (js ''margin: 0''), rightContent = None, similarity = None\<rparr>] @
      [\<lparr>etype = Added, leftLine = None, rightLine = Some 2,
        leftContent = None, rightContent = Some (js ''margin: 1''), similarity = None\<rparr>,
      \<lparr>etype = Added, leftLine = None, rightLine = Some 3,
        leftContent = None, rightContent = Some (js ''color: blue;''), similarity = None\<rparr>,
      \<lparr>etype = Added, leftLine = None, rightLine = Some 4,
        leftContent = None, rightContent = Some (js ''zz''), similarity = None\<rparr>] @
      [\<lparr>etype = Unchanged, leftLine = Some 4, rightLine = Some 5,
        leftContent = Some (js ''}''), rightContent = Some (js ''}''), similarity = None\<rparr>])
   = [\<lparr>etype = Unchanged, leftLine = Some 1, rightLine = Some 1,
        leftContent = Some (js ''a''), rightContent = Some (js ''a''), similarity = None\<rparr>,
      \<lparr>etype = Modified, leftLine = Some 2, rightLine = Some 3,
        leftContent = Some (js ''color: red;''), rightContent = Some (js ''color: blue;''), similarity = Some (2 / 3)\<rparr>,
      \<lparr>etype = Modified, leftLine = Some 3, rightLine = Some 2,
        leftContent = Some (js ''margin: 0''), rightContent = Some (js ''margin: 1''), similarity = Some (8 / 9)\<rparr>,
      \<lparr>etype = Added, leftLine = None, rightLine = Some 4,
        leftContent = None, rightContent = Some (js ''zz''), similarity = None\<rparr>,
      \<lparr>etype = Unchanged, leftLine = Some 4, rightLine = Some 5,
        leftContent = Some (js ''}''), rightContent = Some (js ''}''), similarity = None\<rparr>]"
proof -
  let ?pre = "[\<lparr>etype = Unchanged, leftLine = Some 1, rightLine = Some 1,
        leftContent = Some (js ''a''), rightContent = Some (js ''a''), similarity = None\<rparr>]"
  let ?R = "[\<lparr>etype = Removed, leftLine = Some 2, rightLine = None,
        leftContent = Some (js ''color: red;''), rightContent = None, similarity = None\<rparr>,
      \<lparr>etype = Removed, leftLine = Some 3, rightLine = None,
        leftContent = Some (js ''margin: 0''), rightContent = None, similarity = None\<rparr>]"
  let ?A = "[\<lparr>etype = Added, leftLine = None, rightLine = Some 2,
        leftContent = None, rightContent = Some (js ''margin: 1''), similarity = None\<rparr>,
      \<lparr>etype = Added, leftLine = None, rightLine = Some 3,
        leftContent = None, rightContent = Some (js ''color: blue;''), similarity = None\<rparr>,
      \<lparr>etype = Added, leftLine = None, rightLine = Some 4,
        leftContent = None, rightContent = Some (js ''zz''), similarity = None\<rparr>]"
  let ?post = "[\<lparr>etype = Unchanged, leftLine = Some 4, rightLine = Some 5,
        leftContent = Some (js ''}''), rightContent = Some (js ''}''), similarity = None\<rparr>]"
  have h1: "?R \<noteq> []" and h2: "?A \<noteq> []" by simp_all
  have h3: "\<forall>e \<in> set ?R. etype e = Removed" by simp
  have h4: "\<forall>e \<in> set ?A. etype e = Added" by simp
  have h5: "?pre = [] \<or> etype (last ?pre) \<noteq> Removed" by simp
  have h6: "?post = [] \<or> etype (hd ?post) \<noteq> Added" by simp
  from detectModifications_removed_added_block[OF h1 h2 h3 h4 h5 h6]
  obtain ms where g: "greedy_matching (similarity_matrix ?R ?A) (length ?R) (length ?A) [] [] ms"
    and d: "detectModifications (?pre @ ?R @ ?A @ ?post)
             = detectModifications ?pre @ block_output ?R ?A ms @ detectModifications ?post"
    by blast
  have len: "length ?R = 2" "length ?A = 3" by simp_all
  have g0: "greedy_matching (similarity_matrix ?R ?A) 2 3 [] [] [(1, 0, 8 / 9), (0, 1, 2 / 3)]"
    by code_simp
  have ms: "ms = [(1, 0, 8 / 9), (0, 1, 2 / 3)]"
    using g g0 unfolding len by (rule greedy_matching_unique)
  have ev: "detectModifications ?pre @ block_output ?R ?A [(1, 0, 8 / 9), (0, 1, 2 / 3)]
              @ detectModifications ?post
            = [\<lparr>etype = Unchanged, leftLine = Some 1, rightLine = Some 1,
        leftContent = Some (js ''a''), rightContent = Some (js ''a''), similarity = None\<rparr>,
      \<lparr>etype = Modified, leftLine = Some 2, rightLine = Some 3,
        leftContent = Some (js ''color: red;''), rightContent = Some (js ''color: blue;''), similarity = Some (2 / 3)\<rparr>,
      \<lparr>etype = Modified, leftLine = Some 3, rightLine = Some 2,
        leftContent = Some (js ''margin: 0''), rightContent = Some (js ''margin: 1''), similarity = Some (8 / 9)\<rparr>,
      \<lparr>etype = Added, leftLine = None, rightLine = Some 4,
        leftContent = None, rightContent = Some (js ''zz''), similarity = None\<rparr>,
      \<lparr>etype = Unchanged, leftLine = Some 4, rightLine = Some 5,
        leftContent = Some (js ''}''), rightContent = Some (js ''}''), similarity = None\<rparr>]"
    by code_simp
  note g0
  moreover have "detectModifications (?pre @ ?R @ ?A @ ?post) = [\<lparr>etype = Unchanged, leftLine = Some 1, rightLine = Some 1,
        leftContent = Some (js ''a''), rightContent = Some (js ''a''), similarity = None\<rparr>,
      \<lparr>etype = Modified, leftLine = Some 2, rightLine = Some 3,
        leftContent = Some (js ''color: red;''), rightContent = Some (js ''color: blue;''), similarity = Some (2 / 3)\<rparr>,
      \<lparr>etype = Modified, leftLine = Some 3, rightLine = Some 2,
        leftContent = Some (js ''margin: 0''), rightContent = Some (js ''margin: 1''), similarity = Some (8 / 9)\<rparr>,
      \<lparr>etype = Added, leftLine = None, rightLine = Some 4,
        leftContent = None, rightContent = Some (js ''zz''), similarity = None\<rparr>,
      \<lparr>etype = Unchanged, leftLine = Some 4, rightLine = Some 5,
        leftContent = Some (js ''}''), rightContent = Some (js ''}''), similarity = None\<rparr>]"
    using d ev unfolding ms by simp
  ultimately show ?thesis by (rule conjI)
qed

end
